theory Spec2Isabelle
  imports Complex_Main
begin

section \<open>Rational-function fit of the SampleNFW notebook\<close>

text \<open>
  The notebook \<^verbatim>\<open>physics229/SampleNFW.ipynb\<close> defines one function,
  \<^verbatim>\<open>find_rational(xi,fxi,A,B)\<close>, and evaluates its result with the expression
  \<^verbatim>\<open>num(xx)/den(xx)\<close>. Both are embedded here. Numbers are the elements of an arbitrary
  field (the rationals in every evaluated example). The numpy routines the function calls
  (\<^verbatim>\<open>zeros\<close>, \<^verbatim>\<open>dot\<close>, \<^verbatim>\<open>linalg.inv\<close>, \<^verbatim>\<open>append\<close>,
  \<^verbatim>\<open>poly1d\<close>) are modelled by what they compute and by the exception they raise.

  There are three views of the one function. \<open>find_rational\<close> is the function in exact
  arithmetic; the properties that are identities of algebra are stated for it, and the
  float64 code meets them up to rounding. \<open>find_rational_rounded\<close> adds the effect of
  rounding that decides a branch: whether \<^verbatim>\<open>np.linalg.inv\<close> raises. \<open>find_rational_run\<close>
  is the same body run in a session of the notebook, with the state of the random generator
  and the globals passed along.
\<close>

subsection \<open>Exceptions, arrays, loops\<close>

text \<open>The Python exceptions the body of \<^verbatim>\<open>find_rational\<close> can raise.\<close>

datatype error = IndexError | ValueError | LinAlgError

text \<open>A two-dimensional numpy array: its shape (rows, columns) and its rows.\<close>

type_synonym 'a array2 = "(nat \<times> nat) \<times> 'a list list"

definition then_do :: "error + 'a \<Rightarrow> ('a \<Rightarrow> error + 'b) \<Rightarrow> error + 'b" where
  "then_do r f = (case r of Inl e \<Rightarrow> Inl e | Inr v \<Rightarrow> f v)"

text \<open>\<^verbatim>\<open>np.zeros((r, c))\<close>: a negative dimension raises ValueError.\<close>

definition np_zeros :: "int \<Rightarrow> int \<Rightarrow> error + ('a::zero) array2" where
  "np_zeros r c =
     (if r < 0 \<or> c < 0 then Inl ValueError
      else Inr ((nat r, nat c), replicate (nat r) (replicate (nat c) 0)))"

text \<open>\<^verbatim>\<open>arr[i,a] = v\<close> for indices inside the shape.\<close>

definition set_item :: "'a array2 \<Rightarrow> nat \<Rightarrow> nat \<Rightarrow> 'a \<Rightarrow> 'a array2" where
  "set_item arr i a v = (fst arr, (snd arr)[i := (snd arr ! i)[a := v]])"

text \<open>A \<^verbatim>\<open>for\<close> loop over a list of indices; an exception in the body ends it.\<close>

fun for_range :: "nat list \<Rightarrow> (nat \<Rightarrow> 's \<Rightarrow> error + 's) \<Rightarrow> 's \<Rightarrow> error + 's" where
  "for_range [] body s = Inr s"
| "for_range (k # ks) body s =
     (case body k s of Inl e \<Rightarrow> Inl e | Inr s' \<Rightarrow> for_range ks body s')"

subsection \<open>The products of \<^verbatim>\<open>np.dot\<close>\<close>

definition dot :: "('a::semiring_0) list \<Rightarrow> 'a list \<Rightarrow> 'a" where
  "dot xs ys = sum_list (map2 (*) xs ys)"

definition column :: "'a array2 \<Rightarrow> nat \<Rightarrow> 'a list" where
  "column arr a = map (\<lambda>r. r ! a) (snd arr)"

text \<open>\<^verbatim>\<open>arr.T\<close>\<close>

definition np_transpose :: "'a array2 \<Rightarrow> 'a array2" where
  "np_transpose arr =
     ((snd (fst arr), fst (fst arr)), map (column arr) [0..<snd (fst arr)])"

text \<open>\<^verbatim>\<open>np.dot\<close> of a vector and a matrix, of two matrices, of a matrix and a vector.
  Shapes that do not align raise ValueError.\<close>

definition dot_vm :: "('a::semiring_0) list \<Rightarrow> 'a array2 \<Rightarrow> error + 'a list" where
  "dot_vm v arr =
     (if length v \<noteq> fst (fst arr) then Inl ValueError
      else Inr (map (\<lambda>a. dot v (column arr a)) [0..<snd (fst arr)]))"

definition dot_mm :: "('a::semiring_0) array2 \<Rightarrow> 'a array2 \<Rightarrow> error + 'a array2" where
  "dot_mm X Y =
     (if snd (fst X) \<noteq> fst (fst Y) then Inl ValueError
      else Inr ((fst (fst X), snd (fst Y)),
                map (\<lambda>r. map (\<lambda>b. dot r (column Y b)) [0..<snd (fst Y)]) (snd X)))"

definition dot_mv :: "('a::semiring_0) array2 \<Rightarrow> 'a list \<Rightarrow> error + 'a list" where
  "dot_mv X v =
     (if snd (fst X) \<noteq> length v then Inl ValueError
      else Inr (map (\<lambda>r. dot r v) (snd X)))"

subsection \<open>\<^verbatim>\<open>np.linalg.inv\<close>\<close>

text \<open>
  numpy inverts a square matrix with LAPACK and raises LinAlgError when the matrix is not
  square or when the elimination meets a pivot that is exactly zero. \<open>linalg_inv\<close> is that
  elimination in exact arithmetic: Gauss-Jordan on the rows of \<open>[M | I]\<close>; for each column in
  turn, the first remaining row with a nonzero entry there is the pivot row; it is divided by
  that entry and subtracted from every other row. When no remaining row has a nonzero entry
  the matrix given is singular and the error is raised.

  The test for zero is exact here. In float64 the pivots carry rounding residues, so a matrix
  that is singular in exact arithmetic can be inverted without an error, and the reverse.
  That is not a property of this function but of the matrix it is given: see \<open>perturb\<close>
  below, which hands it the matrix together with its rounding perturbation.
\<close>

definition unit_row :: "nat \<Rightarrow> nat \<Rightarrow> ('a::zero_neq_one) list" where
  "unit_row n i = map (\<lambda>k. if k = i then 1 else 0) [0..<n]"

definition augment :: "('a::zero_neq_one) list list \<Rightarrow> 'a list list" where
  "augment rows = map (\<lambda>i. rows ! i @ unit_row (length rows) i) [0..<length rows]"

definition eliminate :: "nat \<Rightarrow> ('a::field) list \<Rightarrow> 'a list \<Rightarrow> 'a list" where
  "eliminate j q w = map2 (\<lambda>x y. x - w ! j * y) w q"

fun gauss_jordan :: "nat \<Rightarrow> ('a::field) list list \<Rightarrow> 'a list list \<Rightarrow> error + 'a list list" where
  "gauss_jordan 0 finished todo = Inr finished"
| "gauss_jordan (Suc k) finished todo =
     (let j = length finished in
      case dropWhile (\<lambda>w. w ! j = 0) todo of
        [] \<Rightarrow> Inl LinAlgError
      | p # post \<Rightarrow>
          let pre = takeWhile (\<lambda>w. w ! j = 0) todo;
              q = map (\<lambda>x. x / p ! j) p
          in gauss_jordan k (map (eliminate j q) finished @ [q])
                            (map (eliminate j q) (pre @ post)))"

definition linalg_inv :: "('a::field) array2 \<Rightarrow> error + 'a array2" where
  "linalg_inv M =
     (if fst (fst M) \<noteq> snd (fst M) then Inl LinAlgError
      else then_do (gauss_jordan (fst (fst M)) [] (augment (snd M)))
             (\<lambda>ws. Inr (fst M, map (drop (fst (fst M))) ws)))"

subsection \<open>Slices and \<^verbatim>\<open>np.poly1d\<close>\<close>

text \<open>Python's \<^verbatim>\<open>c[:k]\<close> and \<^verbatim>\<open>c[k:]\<close>: a negative bound counts from the end,
  and every bound is clipped to the length.\<close>

definition slice_bound :: "nat \<Rightarrow> int \<Rightarrow> nat" where
  "slice_bound len k = (if k < 0 then nat (max 0 (k + int len)) else min (nat k) len)"

definition slice_to :: "'a list \<Rightarrow> int \<Rightarrow> 'a list" where
  "slice_to c k = take (slice_bound (length c) k) c"

definition slice_from :: "'a list \<Rightarrow> int \<Rightarrow> 'a list" where
  "slice_from c k = drop (slice_bound (length c) k) c"

text \<open>\<^verbatim>\<open>np.poly1d(cs)\<close> keeps the coefficients, highest degree first, without their
  leading zeros; the zero polynomial is \<open>[0]\<close>.\<close>

definition poly1d :: "('a::zero) list \<Rightarrow> 'a list" where
  "poly1d cs = (let t = dropWhile (\<lambda>x. x = 0) cs in if t = [] then [0] else t)"

text \<open>Calling a \<^verbatim>\<open>poly1d\<close> is \<^verbatim>\<open>np.polyval\<close>:
  \<^verbatim>\<open>y = 0; for pv in p: y = y * x + pv\<close>.\<close>

definition polyval :: "('a::semiring_0) list \<Rightarrow> 'a \<Rightarrow> 'a" where
  "polyval p x = foldl (\<lambda>y pv. y * x + pv) 0 p"

subsection \<open>\<^verbatim>\<open>find_rational\<close>\<close>

text \<open>
  The source:
  \<^verbatim>\<open>
  def find_rational(xi,fxi,A,B):
      Ndata = len(xi)
      Nbase = A+B+1
      phi   = np.zeros( (Ndata,Nbase) )
      for i in range(Ndata):
          for a in range(Nbase):
              phi[i,a] = xi[i]**a if a<=A else (-fxi[i]*xi[i]**(a-A))
      d = np.dot( fxi,phi )
      M = np.dot( phi.T,phi )
      c = np.dot( np.linalg.inv(M),d )
      num=np.poly1d(c[:A+1][::-1])
      den=np.poly1d(np.append(c[A+1:][::-1],1.0))
      return( (num,den) )
  \<close>
  The degrees are Python integers and may be negative; the exponents that occur are not.
  \<open>design_matrix\<close> is the allocation and the two loops, \<open>solve_coefficients\<close> continues
  to the vector \<open>c\<close>, and \<open>find_rational\<close> builds the two polynomials from its slices.
\<close>

text \<open>The value stored at \<^verbatim>\<open>phi[i,a]\<close>; \<^verbatim>\<open>xi[i]\<close> is in range inside the loop,
  \<^verbatim>\<open>fxi[i]\<close> is read in the second branch only and raises IndexError past the end.\<close>

definition phi_entry :: "('a::field) list \<Rightarrow> 'a list \<Rightarrow> int \<Rightarrow> nat \<Rightarrow> nat \<Rightarrow> error + 'a" where
  "phi_entry xi fxi A i a =
     (if int a \<le> A then Inr (xi ! i ^ a)
      else if i < length fxi then Inr (- (fxi ! i) * xi ! i ^ nat (int a - A))
      else Inl IndexError)"

definition design_matrix :: "('a::field) list \<Rightarrow> 'a list \<Rightarrow> int \<Rightarrow> int \<Rightarrow> error + 'a array2" where
  "design_matrix xi fxi A B =
     (let Ndata = length xi; Nbase = A + B + 1 in
      then_do (np_zeros (int Ndata) Nbase) (\<lambda>phi0.
        for_range [0..<Ndata] (\<lambda>i.
          for_range [0..<nat Nbase] (\<lambda>a phi.
            then_do (phi_entry xi fxi A i a) (\<lambda>v. Inr (set_item phi i a v)))) phi0))"

definition solve_coefficients :: "('a::field) list \<Rightarrow> 'a list \<Rightarrow> int \<Rightarrow> int \<Rightarrow> error + 'a list" where
  "solve_coefficients xi fxi A B =
     then_do (design_matrix xi fxi A B) (\<lambda>phi.
     then_do (dot_vm fxi phi) (\<lambda>d.
     then_do (dot_mm (np_transpose phi) phi) (\<lambda>M.
     then_do (linalg_inv M) (\<lambda>Minv.
     dot_mv Minv d))))"

definition find_rational ::
  "('a::field) list \<Rightarrow> 'a list \<Rightarrow> int \<Rightarrow> int \<Rightarrow> error + ('a list \<times> 'a list)" where
  "find_rational xi fxi A B =
     then_do (solve_coefficients xi fxi A B) (\<lambda>c.
       Inr (poly1d (rev (slice_to c (A + 1))),
            poly1d (rev (slice_from c (A + 1)) @ [1])))"

subsection \<open>Evaluation \<^verbatim>\<open>num(xx)/den(xx)\<close>\<close>

text \<open>
  The quotient of two numpy floats never raises: a zero divisor gives an infinity (its sign
  that of the operands) or, for \<open>0/0\<close>, NaN, with a warning only. The query \<open>xx\<close> is a
  sequence of points; a scalar query is the sequence of one point. The result is a sum type
  so that "no exception" can be stated; \<open>evaluate\<close> has no \<open>Inl\<close> branch.
\<close>

datatype 'a npfloat = Finite 'a | Infinite | NaN

definition np_divide :: "('a::field) \<Rightarrow> 'a \<Rightarrow> 'a npfloat" where
  "np_divide a b = (if b = 0 then (if a = 0 then NaN else Infinite) else Finite (a / b))"

definition evaluate :: "('a::field) list \<times> 'a list \<Rightarrow> 'a list \<Rightarrow> error + 'a npfloat list" where
  "evaluate fn xx =
     Inr (map (\<lambda>x. np_divide (polyval (fst fn) x) (polyval (snd fn) x)) xx)"

subsection \<open>Rounding in \<^verbatim>\<open>np.linalg.inv\<close>\<close>

text \<open>
  The factorisation that LAPACK computes in float64 is the exact factorisation of a matrix
  \<open>M + E\<close> near \<open>M\<close> (the backward error of the elimination), and numpy raises
  LinAlgError when a computed pivot is exactly 0.0, that is, when the elimination of
  \<open>M + E\<close> meets a zero pivot. The rounded model takes the perturbation \<open>E\<close> as a parameter
  and inverts \<open>M + E\<close> where the exact model inverts \<open>M\<close>; everything else is unchanged.
  With \<open>E = 0\<close> the rounded model is the exact one.
\<close>

definition perturb :: "(nat \<Rightarrow> nat \<Rightarrow> 'a::plus) \<Rightarrow> 'a array2 \<Rightarrow> 'a array2" where
  "perturb E M =
     (fst M, map (\<lambda>a. map (\<lambda>b. snd M ! a ! b + E a b) [0..<snd (fst M)]) [0..<fst (fst M)])"


definition solve_coefficients_rounded ::
  "(nat \<Rightarrow> nat \<Rightarrow> 'a::field) \<Rightarrow> 'a list \<Rightarrow> 'a list \<Rightarrow> int \<Rightarrow> int \<Rightarrow> error + 'a list" where
  "solve_coefficients_rounded E xi fxi A B =
     then_do (design_matrix xi fxi A B) (\<lambda>phi.
     then_do (dot_vm fxi phi) (\<lambda>d.
     then_do (dot_mm (np_transpose phi) phi) (\<lambda>M.
     then_do (linalg_inv (perturb E M)) (\<lambda>Minv.
     dot_mv Minv d))))"

definition find_rational_rounded ::
  "(nat \<Rightarrow> nat \<Rightarrow> 'a::field) \<Rightarrow> 'a list \<Rightarrow> 'a list \<Rightarrow> int \<Rightarrow> int
     \<Rightarrow> error + ('a list \<times> 'a list)" where
  "find_rational_rounded E xi fxi A B =
     then_do (solve_coefficients_rounded E xi fxi A B) (\<lambda>c.
       Inr (poly1d (rev (slice_to c (A + 1))),
            poly1d (rev (slice_from c (A + 1)) @ [1])))"

subsection \<open>The function in a session of the notebook\<close>

text \<open>
  What a call could depend on besides its arguments is the state of the session: numpy's
  global random generator, which the notebook uses in \<^verbatim>\<open>nfw\<close> and in the cells that draw
  \<^verbatim>\<open>np.random.uniform\<close>, and the global variables of the notebook (\<^verbatim>\<open>num\<close>,
  \<^verbatim>\<open>den\<close>, \<^verbatim>\<open>Mx\<close>, \<^verbatim>\<open>rr\<close>, ...). The generator is the stream of numbers it will
  produce and the position in it. A piece of code run in a session takes the state and
  returns its result, or the exception, with the new state.
\<close>

record 'a session =
  rng_stream :: "nat \<Rightarrow> 'a"
  rng_pos :: nat
  globals :: "string \<Rightarrow> 'a list option"

type_synonym ('a, 'r) cell = "'a session \<Rightarrow> (error + 'r) \<times> 'a session"




text \<open>
  \<^verbatim>\<open>np.random.uniform()\<close>: the next number of the stream; the generator advances.
\<close>

definition np_random_uniform :: "('a, 'a) cell" where
  "np_random_uniform = (\<lambda>s. (Inr (rng_stream s (rng_pos s)), s\<lparr>rng_pos := rng_pos s + 1\<rparr>))"


subsection \<open>The target vector of the specification\<close>

text \<open>
  The specification takes \<open>y\<^sub>i x\<^sub>i\<^sup>B\<close> as the target of the least-squares system.
  \<open>claimed_target\<close> is that vector, and \<open>coefficients_for_target t\<close> is the computation of
  the source with the vector \<open>t\<close> in the place of \<^verbatim>\<open>fxi\<close> in \<^verbatim>\<open>d = np.dot(fxi,phi)\<close>;
  the source itself is \<open>coefficients_for_target fxi\<close>. Both follow the words of the
  specification and serve the comparison only.
\<close>

definition coefficients_for_target ::
  "('a::field) list \<Rightarrow> 'a list \<Rightarrow> 'a list \<Rightarrow> int \<Rightarrow> int \<Rightarrow> error + 'a list" where
  "coefficients_for_target t xi fxi A B =
     then_do (design_matrix xi fxi A B) (\<lambda>phi.
     then_do (dot_vm t phi) (\<lambda>d.
     then_do (dot_mm (np_transpose phi) phi) (\<lambda>M.
     then_do (linalg_inv M) (\<lambda>Minv.
     dot_mv Minv d))))"

definition claimed_target :: "('a::field) list \<Rightarrow> 'a list \<Rightarrow> int \<Rightarrow> 'a list" where
  "claimed_target xi fxi B = map2 (\<lambda>x y. y * x ^ nat B) xi fxi"

subsection \<open>Quantities the properties are stated with\<close>

text \<open>The entry the loop stores at \<^verbatim>\<open>phi[i,a]\<close> when it raises nothing, and the table
  of all entries.\<close>

definition phi_val :: "('a::field) list \<Rightarrow> 'a list \<Rightarrow> int \<Rightarrow> nat \<Rightarrow> nat \<Rightarrow> 'a" where
  "phi_val xi fxi A i a =
     (if int a \<le> A then xi ! i ^ a else - (fxi ! i) * xi ! i ^ nat (int a - A))"

definition phi_table :: "('a::field) list \<Rightarrow> 'a list \<Rightarrow> int \<Rightarrow> int \<Rightarrow> 'a list list" where
  "phi_table xi fxi A B =
     map (\<lambda>i. map (phi_val xi fxi A i) [0..<nat (A + B + 1)]) [0..<length xi]"

text \<open>Invariants of the elimination on \<open>[M | I]\<close>: every row \<open>[l | r]\<close> satisfies
  \<open>l = r M\<close>; the finished rows carry unit columns, the remaining rows zeros, in the columns
  already treated.\<close>

definition lin_row :: "nat \<Rightarrow> (nat \<Rightarrow> nat \<Rightarrow> 'a::field) \<Rightarrow> 'a list \<Rightarrow> bool" where
  "lin_row n m w \<longleftrightarrow>
     length w = 2 * n \<and> (\<forall>c<n. w ! c = (\<Sum>i<n. w ! (n + i) * m i c))"

definition gj_inv ::
  "nat \<Rightarrow> (nat \<Rightarrow> nat \<Rightarrow> 'a::field) \<Rightarrow> 'a list list \<Rightarrow> 'a list list \<Rightarrow> bool" where
  "gj_inv n m finished todo \<longleftrightarrow>
     length finished + length todo = n \<and>
     (\<forall>w\<in>set finished \<union> set todo. lin_row n m w) \<and>
     (\<forall>i<length finished. \<forall>c<length finished.
        finished ! i ! c = (if c = i then 1 else 0)) \<and>
     (\<forall>w\<in>set todo. \<forall>c<length finished. w ! c = 0)"

text \<open>The elimination keeps the set of vectors that every row sends to zero.\<close>

definition ker_inv :: "nat \<Rightarrow> (nat \<Rightarrow> nat \<Rightarrow> 'a::field) \<Rightarrow> 'a list list \<Rightarrow> bool" where
  "ker_inv n m rows \<longleftrightarrow>
     (\<forall>v. (\<forall>w\<in>set rows. (\<Sum>c<n. w ! c * v c) = 0)
          \<longleftrightarrow> (\<forall>i<n. (\<Sum>c<n. m i c * v c) = 0))"

text \<open>The matrix \<open>\<Phi>\<^sup>T \<Phi>\<close> and the vector \<open>\<Phi>\<^sup>T y\<close> of the normal equations,
  written with sums.\<close>

definition normal_matrix :: "('a::field) list \<Rightarrow> 'a list \<Rightarrow> int \<Rightarrow> int \<Rightarrow> 'a list list" where
  "normal_matrix xi fxi A B =
     map (\<lambda>a. map (\<lambda>b. \<Sum>i<length xi. phi_val xi fxi A i a * phi_val xi fxi A i b)
                [0..<nat (A + B + 1)]) [0..<nat (A + B + 1)]"

definition source_vector :: "('a::field) list \<Rightarrow> 'a list \<Rightarrow> int \<Rightarrow> int \<Rightarrow> 'a list" where
  "source_vector xi fxi A B =
     map (\<lambda>a. \<Sum>i<length xi. fxi ! i * phi_val xi fxi A i a) [0..<nat (A + B + 1)]"

section \<open>Properties\<close>

subsection \<open>Basic facts\<close>

lemma then_do_Inr_iff:
  "then_do r f = Inr y \<longleftrightarrow> (\<exists>v. r = Inr v \<and> f v = Inr y)"
  by (cases r) (simp_all add: then_do_def)

lemma polyval_snoc: "polyval (p @ [a]) x = polyval p x * x + a"
  by (simp add: polyval_def)

lemma polyval_dropWhile: "polyval (dropWhile (\<lambda>c. c = 0) p) x = polyval p x"
proof (induction p)
  case Nil
  show ?case by simp
next
  case (Cons c p)
  show ?case
  proof (cases "c = 0")
    case True
    have "polyval (c # p) x = polyval p x"
      using True by (simp add: polyval_def)
    with Cons True show ?thesis by simp
  next
    case False
    then show ?thesis by simp
  qed
qed

lemma polyval_poly1d: "polyval (poly1d p) x = polyval p x"
proof (cases "dropWhile (\<lambda>c. c = 0) p = []")
  case True
  have "polyval p x = polyval [] x"
    using polyval_dropWhile [of p x] True by simp
  then show ?thesis using True by (simp add: poly1d_def polyval_def)
next
  case False
  then have "poly1d p = dropWhile (\<lambda>c. c = 0) p"
    unfolding poly1d_def Let_def by (simp only: if_False)
  then show ?thesis by (simp only: polyval_dropWhile)
qed

lemma poly1d_snoc_one: "poly1d (cs @ [1::'a::zero_neq_one]) = dropWhile (\<lambda>c. c = 0) cs @ [1]"
proof -
  have "dropWhile (\<lambda>c. c = 0) (cs @ [1::'a]) = dropWhile (\<lambda>c. c = 0) cs @ [1]"
    by (induction cs) simp_all
  then show ?thesis by (simp add: poly1d_def)
qed

lemma np_zeros_negative: "c < 0 \<Longrightarrow> np_zeros r c = Inl ValueError"
  by (simp add: np_zeros_def)

subsection \<open>The loop that fills the design matrix\<close>

lemma then_do_Inr [simp]: "then_do (Inr v) f = f v"
  by (simp add: then_do_def)

lemma then_do_Inl [simp]: "then_do (Inl e) f = Inl e"
  by (simp add: then_do_def)

lemma for_range_snoc:
  "for_range (ks @ [k]) body s = then_do (for_range ks body s) (body k)"
  by (induction ks arbitrary: s) (simp_all split: sum.splits)

lemma for_range_invariant:
  assumes "P 0 s0"
    and "\<And>k s. k < m \<Longrightarrow> P k s \<Longrightarrow> \<exists>s'. body k s = Inr s' \<and> P (Suc k) s'"
  shows "\<exists>s'. for_range [0..<m] body s0 = Inr s' \<and> P m s'"
  using assms(2)
proof (induction m)
  case 0
  show ?case using assms(1) by simp
next
  case (Suc m)
  have "\<exists>s'. for_range [0..<m] body s0 = Inr s' \<and> P m s'"
    using Suc.IH Suc.prems by (meson less_Suc_eq)
  then obtain s1 where s1: "for_range [0..<m] body s0 = Inr s1" "P m s1"
    by blast
  obtain s2 where s2: "body m s1 = Inr s2" "P (Suc m) s2"
    using Suc.prems [of m s1] s1(2) by blast
  have "for_range [0..<Suc m] body s0 = Inr s2"
    using s1(1) s2(1) by (simp add: for_range_snoc)
  with s2(2) show ?case by blast
qed

lemma for_range_fst:
  assumes "\<And>k s s'. body k s = Inr s' \<Longrightarrow> fst s' = fst s"
  shows "for_range ks body s = Inr s' \<Longrightarrow> fst s' = fst s"
proof (induction ks arbitrary: s)
  case Nil
  then show ?case by simp
next
  case (Cons k ks)
  then show ?case using assms by (fastforce split: sum.splits)
qed

lemma phi_entry_in_range:
  "i < length fxi \<Longrightarrow> phi_entry xi fxi A i a = Inr (phi_val xi fxi A i a)"
  by (simp add: phi_entry_def phi_val_def)

text \<open>The inner loop fills row i.\<close>
lemma inner_loop:
  fixes phi :: "('a::field) array2"
  assumes i: "i < length fxi" "i < length (snd phi)" and len: "length (snd phi ! i) = N"
  shows "\<exists>phi'. for_range [0..<N] (\<lambda>a phi.
            then_do (phi_entry xi fxi A i a) (\<lambda>v. Inr (set_item phi i a v))) phi = Inr phi'
          \<and> fst phi' = fst phi \<and> length (snd phi') = length (snd phi)
          \<and> (\<forall>i'. i' \<noteq> i \<longrightarrow> snd phi' ! i' = snd phi ! i')
          \<and> snd phi' ! i = map (phi_val xi fxi A i) [0..<N]"
proof -
  let ?P = "\<lambda>k s. fst s = fst phi \<and> length (snd s) = length (snd phi)
          \<and> (\<forall>i'. i' \<noteq> i \<longrightarrow> snd s ! i' = snd phi ! i')
          \<and> length (snd s ! i) = N \<and> (\<forall>a<k. snd s ! i ! a = phi_val xi fxi A i a)"
  have "\<exists>s'. for_range [0..<N] (\<lambda>a phi.
            then_do (phi_entry xi fxi A i a) (\<lambda>v. Inr (set_item phi i a v))) phi = Inr s' \<and> ?P N s'"
  proof (rule for_range_invariant [where P = ?P])
    show "?P 0 phi" using len by simp
  next
    fix k s
    assume k: "k < N" and P: "?P k s"
    let ?s' = "set_item s i k (phi_val xi fxi A i k)"
    have "then_do (phi_entry xi fxi A i k) (\<lambda>v. Inr (set_item s i k v)) = Inr ?s'"
      using i(1) by (simp add: phi_entry_in_range)
    moreover have "?P (Suc k) ?s'"
      using P k i(2) by (auto simp: set_item_def nth_list_update less_Suc_eq)
    ultimately show "\<exists>s'. then_do (phi_entry xi fxi A i k) (\<lambda>v. Inr (set_item s i k v)) = Inr s'
        \<and> ?P (Suc k) s'"
      by blast
  qed
  then obtain s' where s': "for_range [0..<N] (\<lambda>a phi.
            then_do (phi_entry xi fxi A i a) (\<lambda>v. Inr (set_item phi i a v))) phi = Inr s'" "?P N s'"
    by blast
  have "snd s' ! i = map (phi_val xi fxi A i) [0..<N]"
    using s'(2) by (auto simp: list_eq_iff_nth_eq)
  with s' show ?thesis by blast
qed

lemma design_matrix_table:
  fixes xi fxi :: "('a::field) list"
  assumes len: "length fxi = length xi" and N: "0 \<le> A + B + 1"
  shows "design_matrix xi fxi A B = Inr ((length xi, nat (A + B + 1)), phi_table xi fxi A B)"
proof -
  let ?n = "length xi" and ?N = "nat (A + B + 1)"
  let ?inner = "\<lambda>i. for_range [0..<?N] (\<lambda>a phi.
            then_do (phi_entry xi fxi A i a) (\<lambda>v. Inr (set_item phi i a v)))"
  let ?phi0 = "((?n, ?N), replicate ?n (replicate ?N (0::'a)))"
  let ?P = "\<lambda>k s. fst s = (?n, ?N) \<and> length (snd s) = ?n
          \<and> (\<forall>i<?n. length (snd s ! i) = ?N)
          \<and> (\<forall>i<k. snd s ! i = map (phi_val xi fxi A i) [0..<?N])"
  have "\<exists>s'. for_range [0..<?n] ?inner ?phi0 = Inr s' \<and> ?P ?n s'"
  proof (rule for_range_invariant [where P = ?P])
    show "?P 0 ?phi0" by simp
  next
    fix k s
    assume k: "k < ?n" and P: "?P k s"
    from inner_loop [of k fxi s ?N xi A] k P len
    obtain s' where s': "?inner k s = Inr s'" "fst s' = fst s" "length (snd s') = length (snd s)"
      "\<forall>i'. i' \<noteq> k \<longrightarrow> snd s' ! i' = snd s ! i'"
      "snd s' ! k = map (phi_val xi fxi A k) [0..<?N]"
      by auto
    have a: "\<forall>i<?n. length (snd s' ! i) = ?N"
    proof (intro allI impI)
      fix i assume "i < ?n"
      then show "length (snd s' ! i) = ?N"
        using P s'(4,5) by (cases "i = k") simp_all
    qed
    have b: "\<forall>i<Suc k. snd s' ! i = map (phi_val xi fxi A i) [0..<?N]"
    proof (intro allI impI)
      fix i assume "i < Suc k"
      then show "snd s' ! i = map (phi_val xi fxi A i) [0..<?N]"
        using P s'(4,5) by (cases "i = k") simp_all
    qed
    have "?P (Suc k) s'"
      using P s'(2,3) a b by simp
    with s'(1) show "\<exists>s'. ?inner k s = Inr s' \<and> ?P (Suc k) s'" by blast
  qed
  then obtain s' where s': "for_range [0..<?n] ?inner ?phi0 = Inr s'" "?P ?n s'"
    by blast
  have "snd s' = phi_table xi fxi A B"
  proof (rule nth_equalityI)
    show "length (snd s') = length (phi_table xi fxi A B)"
      using s'(2) by (simp add: phi_table_def)
  next
    fix i assume "i < length (snd s')"
    then show "snd s' ! i = phi_table xi fxi A B ! i"
      using s'(2) by (simp add: phi_table_def)
  qed
  with s'(2) have "s' = ((?n, ?N), phi_table xi fxi A B)"
    by (metis prod.collapse)
  with s'(1) N show ?thesis
    by (simp add: design_matrix_def np_zeros_def Let_def)
qed

lemma design_matrix_shape:
  assumes "design_matrix xi fxi A B = Inr phi"
  shows "fst phi = (length xi, nat (A + B + 1))"
proof -
  have N: "0 \<le> A + B + 1"
    using assms by (auto simp: design_matrix_def np_zeros_def Let_def split: if_splits)
  let ?inner = "\<lambda>i. for_range [0..<nat (A + B + 1)] (\<lambda>a phi.
            then_do (phi_entry xi fxi A i a) (\<lambda>v. Inr (set_item phi i a v)))"
  let ?phi0 = "((length xi, nat (A + B + 1)), replicate (length xi) (replicate (nat (A + B + 1)) (0::'a)))"
  have run: "for_range [0..<length xi] ?inner ?phi0 = Inr phi"
    using assms N by (simp add: design_matrix_def np_zeros_def Let_def)
  have inner: "\<And>k (s::'a array2) s'. ?inner k s = Inr s' \<Longrightarrow> fst s' = fst s"
  proof -
    fix k and s s' :: "'a array2"
    assume "?inner k s = Inr s'"
    then show "fst s' = fst s"
      by (rule for_range_fst [rotated])
         (auto simp: then_do_def set_item_def split: sum.splits)
  qed
  have "fst phi = fst ?phi0"
    using run by (rule for_range_fst [rotated]) (rule inner)
  then show ?thesis by simp
qed

lemma dot_sum:
  assumes "length xs = n" "length ys = n"
  shows "dot xs ys = (\<Sum>i<n. xs ! i * ys ! i)"
proof -
  have "dot xs ys = (\<Sum>i = 0..<length (map2 (*) xs ys). map2 (*) xs ys ! i)"
    unfolding dot_def by (rule sum_list_sum_nth)
  also have "\<dots> = (\<Sum>i = 0..<n. xs ! i * ys ! i)"
    using assms by (intro sum.cong) simp_all
  finally show ?thesis by (simp add: atLeast0LessThan)
qed

subsection \<open>Linear systems\<close>

lemma sum_unit_left:
  fixes v :: "nat \<Rightarrow> 'a::semiring_1"
  assumes "l < n"
  shows "(\<Sum>k<n. (if l = k then 1 else 0) * v k) = v l"
proof -
  have "(\<Sum>k<n. (if l = k then 1 else 0) * v k) = (\<Sum>k<n. if k = l then v k else 0)"
    by (intro sum.cong) auto
  also have "\<dots> = v l"
    using assms by (simp add: sum.delta)
  finally show ?thesis .
qed

lemma sum_unit_right:
  fixes v :: "nat \<Rightarrow> 'a::semiring_1"
  assumes "l < n"
  shows "(\<Sum>k<n. v k * (if k = l then 1 else 0)) = v l"
proof -
  have "(\<Sum>k<n. v k * (if k = l then 1 else 0)) = (\<Sum>k<n. if k = l then v k else 0)"
    by (intro sum.cong) auto
  also have "\<dots> = v l"
    using assms by (simp add: sum.delta)
  finally show ?thesis .
qed

lemma underdetermined_set:
  fixes f :: "nat \<Rightarrow> 'b \<Rightarrow> 'a::field"
  assumes "finite S" "n < card S"
  shows "\<exists>v. (\<exists>a\<in>S. v a \<noteq> 0) \<and> (\<forall>i<n. (\<Sum>a\<in>S. f i a * v a) = 0)"
  using assms
proof (induction n arbitrary: S f)
  case 0
  then have "S \<noteq> {}" by auto
  then obtain a where "a \<in> S" by blast
  then have "\<exists>a\<in>S. (\<lambda>_. 1::'a) a \<noteq> 0" by auto
  then show ?case by (intro exI [of _ "\<lambda>_. 1"]) simp
next
  case (Suc n)
  show ?case
  proof (cases "\<forall>a\<in>S. f n a = 0")
    case True
    from Suc.IH [of S f] Suc.prems
    obtain v where v: "\<exists>a\<in>S. v a \<noteq> 0" "\<forall>i<n. (\<Sum>a\<in>S. f i a * v a) = 0"
      by auto
    have "(\<Sum>a\<in>S. f n a * v a) = 0"
      using True by simp
    with v(2) have "\<forall>i<Suc n. (\<Sum>a\<in>S. f i a * v a) = 0"
      by (simp add: less_Suc_eq)
    with v(1) show ?thesis by blast
  next
    case False
    then obtain p where p: "p \<in> S" "f n p \<noteq> 0" by blast
    let ?S = "S - {p}"
    let ?g = "\<lambda>i a. f i a - f i p * f n a / f n p"
    have fin: "finite ?S" using Suc.prems by simp
    have card: "n < card ?S" using Suc.prems p by simp
    from Suc.IH [OF fin card, of ?g]
    obtain w where w: "\<exists>a\<in>?S. w a \<noteq> 0" "\<forall>i<n. (\<Sum>a\<in>?S. ?g i a * w a) = 0"
      by blast
    define t where "t = (\<Sum>a\<in>?S. f n a * w a)"
    define v where "v = (\<lambda>a. if a = p then - t / f n p else w a)"
    have split: "(\<Sum>a\<in>S. f i a * v a) = f i p * v p + (\<Sum>a\<in>?S. f i a * w a)" for i
    proof -
      have "(\<Sum>a\<in>S. f i a * v a) = f i p * v p + (\<Sum>a\<in>?S. f i a * v a)"
        using Suc.prems(1) p(1) by (simp add: sum.remove)
      also have "(\<Sum>a\<in>?S. f i a * v a) = (\<Sum>a\<in>?S. f i a * w a)"
        by (intro sum.cong) (simp_all add: v_def)
      finally show ?thesis .
    qed
    have g: "(\<Sum>a\<in>?S. ?g i a * w a) = (\<Sum>a\<in>?S. f i a * w a) - f i p * t / f n p" for i
    proof -
      have "(\<Sum>a\<in>?S. ?g i a * w a)
            = (\<Sum>a\<in>?S. f i a * w a - (f i p / f n p) * (f n a * w a))"
        by (intro sum.cong) (simp_all add: algebra_simps)
      also have "\<dots> = (\<Sum>a\<in>?S. f i a * w a) - (f i p / f n p) * t"
        by (simp add: sum_subtractf sum_distrib_left t_def)
      finally show ?thesis by simp
    qed
    have eq: "(\<Sum>a\<in>S. f i a * v a) = (\<Sum>a\<in>?S. ?g i a * w a)" for i
      unfolding split g by (simp add: v_def)
    have last: "(\<Sum>a\<in>S. f n a * v a) = 0"
      unfolding split using p(2) by (simp add: v_def t_def)
    have "\<forall>i<Suc n. (\<Sum>a\<in>S. f i a * v a) = 0"
      using w(2) eq last by (simp add: less_Suc_eq)
    moreover have "\<exists>a\<in>S. v a \<noteq> 0"
      using w(1) by (auto simp: v_def)
    ultimately show ?thesis by blast
  qed
qed

lemma underdetermined:
  fixes f :: "nat \<Rightarrow> nat \<Rightarrow> 'a::field"
  assumes "n < N"
  shows "\<exists>v. (\<exists>a<N. v a \<noteq> 0) \<and> (\<forall>i<n. (\<Sum>a<N. f i a * v a) = 0)"
proof -
  from underdetermined_set [of "{..<N}" n f] assms
  obtain v where "\<exists>a\<in>{..<N}. v a \<noteq> 0" "\<forall>i<n. (\<Sum>a<N. f i a * v a) = 0"
    by auto
  then show ?thesis by (intro exI [of _ v]) auto
qed

lemma matvec_assoc:
  fixes X :: "nat \<Rightarrow> 'a::comm_semiring_0"
  shows "(\<Sum>j<m. (\<Sum>k<p. X k * Y k j) * v j) = (\<Sum>k<p. X k * (\<Sum>j<m. Y k j * v j))"
proof -
  have "(\<Sum>j<m. (\<Sum>k<p. X k * Y k j) * v j) = (\<Sum>j<m. \<Sum>k<p. X k * (Y k j * v j))"
    by (simp add: sum_distrib_right mult.assoc)
  also have "\<dots> = (\<Sum>k<p. \<Sum>j<m. X k * (Y k j * v j))"
    by (rule sum.swap)
  finally show ?thesis by (simp add: sum_distrib_left)
qed

text \<open>A matrix with a left inverse has a trivial kernel.\<close>

lemma left_inverse_kernel:
  fixes X Y :: "nat \<Rightarrow> nat \<Rightarrow> 'a::field"
  assumes XY: "\<And>i k. i < n \<Longrightarrow> k < n \<Longrightarrow> (\<Sum>l<p. X i l * Y l k) = (if i = k then 1 else 0)"
    and Yv: "\<And>l. l < p \<Longrightarrow> (\<Sum>k<n. Y l k * v k) = 0"
    and l: "l < n"
  shows "v l = 0"
proof -
  have "v l = (\<Sum>k<n. (if l = k then 1 else 0) * v k)"
    using l by (simp add: sum_unit_left)
  also have "\<dots> = (\<Sum>k<n. (\<Sum>m<p. X l m * Y m k) * v k)"
    using XY l by (intro sum.cong) simp_all
  also have "\<dots> = (\<Sum>m<p. X l m * (\<Sum>k<n. Y m k * v k))"
    by (rule matvec_assoc)
  also have "\<dots> = 0"
    using Yv by simp
  finally show ?thesis .
qed

text \<open>A left inverse of a square matrix is a right inverse.\<close>

lemma left_inverse_right:
  fixes X Y :: "nat \<Rightarrow> nat \<Rightarrow> 'a::field"
  assumes XY: "\<And>i k. i < n \<Longrightarrow> k < n \<Longrightarrow> (\<Sum>l<n. X i l * Y l k) = (if i = k then 1 else 0)"
    and i: "i < n" and k: "k < n"
  shows "(\<Sum>l<n. Y i l * X l k) = (if i = k then 1 else 0)"
proof -
  have surj: "\<exists>u. \<forall>i<n. (\<Sum>l<n. Y i l * u l) = b i" for b
  proof -
    let ?f = "\<lambda>i a. if a < n then Y i a else b i"
    from underdetermined [of n "Suc n" ?f]
    obtain v where v: "\<exists>a<Suc n. v a \<noteq> 0" "\<forall>i<n. (\<Sum>a<Suc n. ?f i a * v a) = 0"
      by auto
    have eq: "(\<Sum>a<n. Y i a * v a) + b i * v n = 0" if "i < n" for i
      using v(2) that by simp
    have "v n \<noteq> 0"
    proof
      assume z: "v n = 0"
      have kerz: "(\<Sum>a<n. Y i a * v a) = 0" if "i < n" for i
        using eq [OF that] z by simp
      have "v l = 0" if "l < n" for l
        by (rule left_inverse_kernel [where X = X and Y = Y and p = n and n = n])
           (use XY kerz that in simp_all)
      with z v(1) show False by (auto simp: less_Suc_eq)
    qed
    have "(\<Sum>l<n. Y i l * (- v l / v n)) = b i" if "i < n" for i
    proof -
      have "(\<Sum>l<n. Y i l * (- v l / v n)) = - (\<Sum>l<n. Y i l * v l) / v n"
        by (simp add: sum_negf sum_divide_distrib)
      also have "\<dots> = b i"
        using eq [OF that] \<open>v n \<noteq> 0\<close> by (simp add: field_simps add_eq_0_iff)
      finally show ?thesis .
    qed
    then show ?thesis by (intro exI [of _ "\<lambda>l. - v l / v n"]) simp
  qed
  obtain u where u: "\<forall>i<n. (\<Sum>l<n. Y i l * u l) = (if i = k then 1 else (0::'a))"
    using surj [of "\<lambda>i. if i = k then 1 else 0"] by blast
  have "(\<Sum>l<n. Y i l * X l k) = (\<Sum>l<n. Y i l * (\<Sum>m<n. X l m * (if m = k then 1 else 0)))"
    using k by (simp add: sum_unit_right)
  also have "\<dots> = (\<Sum>l<n. Y i l * (\<Sum>m<n. X l m * (\<Sum>j<n. Y m j * u j)))"
    using u by simp
  also have "\<dots> = (\<Sum>l<n. Y i l * (\<Sum>j<n. (\<Sum>m<n. X l m * Y m j) * u j))"
    by (simp add: matvec_assoc)
  also have "\<dots> = (\<Sum>l<n. Y i l * (\<Sum>j<n. (if l = j then 1 else 0) * u j))"
    using XY by simp
  also have "\<dots> = (\<Sum>l<n. Y i l * u l)"
    by (intro sum.cong refl) (simp add: sum_unit_left)
  also have "\<dots> = (if i = k then 1 else 0)"
    using u i by simp
  finally show ?thesis .
qed

subsection \<open>Correctness of the elimination\<close>

lemma eliminate_nth:
  "length w = length q \<Longrightarrow> c < length w \<Longrightarrow> eliminate j q w ! c = w ! c - w ! j * q ! c"
  by (simp add: eliminate_def)

lemma length_eliminate: "length w = length q \<Longrightarrow> length (eliminate j q w) = length w"
  by (simp add: eliminate_def)

lemma lin_row_scale:
  assumes "lin_row n m w"
  shows "lin_row n m (map (\<lambda>x. x / s) w)"
proof -
  have len: "length w = 2 * n" and lin: "\<And>c. c < n \<Longrightarrow> w ! c = (\<Sum>i<n. w ! (n + i) * m i c)"
    using assms by (simp_all add: lin_row_def)
  have "map (\<lambda>x. x / s) w ! c = (\<Sum>i<n. map (\<lambda>x. x / s) w ! (n + i) * m i c)" if c: "c < n" for c
  proof -
    have "map (\<lambda>x. x / s) w ! c = (\<Sum>i<n. w ! (n + i) * m i c) / s"
      using c len lin by simp
    also have "\<dots> = (\<Sum>i<n. w ! (n + i) / s * m i c)"
      by (simp add: sum_divide_distrib)
    also have "\<dots> = (\<Sum>i<n. map (\<lambda>x. x / s) w ! (n + i) * m i c)"
      using len by (intro sum.cong) simp_all
    finally show ?thesis .
  qed
  then show ?thesis using len by (simp add: lin_row_def)
qed

lemma lin_row_eliminate:
  assumes "lin_row n m w" "lin_row n m q"
  shows "lin_row n m (eliminate j q w)"
proof -
  have lw: "length w = 2 * n" and w: "\<And>c. c < n \<Longrightarrow> w ! c = (\<Sum>i<n. w ! (n + i) * m i c)"
    using assms(1) by (simp_all add: lin_row_def)
  have lq: "length q = 2 * n" and q: "\<And>c. c < n \<Longrightarrow> q ! c = (\<Sum>i<n. q ! (n + i) * m i c)"
    using assms(2) by (simp_all add: lin_row_def)
  have nth: "eliminate j q w ! c = w ! c - w ! j * q ! c" if "c < 2 * n" for c
    using that lw lq by (simp add: eliminate_nth)
  have "eliminate j q w ! c = (\<Sum>i<n. eliminate j q w ! (n + i) * m i c)" if c: "c < n" for c
  proof -
    have "eliminate j q w ! c = (\<Sum>i<n. w ! (n + i) * m i c) - w ! j * (\<Sum>i<n. q ! (n + i) * m i c)"
      using c nth [of c] w [OF c] q [OF c] by simp
    also have "\<dots> = (\<Sum>i<n. (w ! (n + i) - w ! j * q ! (n + i)) * m i c)"
      by (simp add: sum_distrib_left sum_subtractf algebra_simps)
    also have "\<dots> = (\<Sum>i<n. eliminate j q w ! (n + i) * m i c)"
      by (intro sum.cong) (simp_all add: nth)
    finally show ?thesis .
  qed
  then show ?thesis using lw lq by (simp add: lin_row_def length_eliminate)
qed

lemma gj_step:
  fixes m :: "nat \<Rightarrow> nat \<Rightarrow> 'a::field"
  assumes inv: "gj_inv n m finished todo"
    and dw: "dropWhile (\<lambda>w. w ! length finished = 0) todo = p # post"
  defines "j \<equiv> length finished"
  defines "q \<equiv> map (\<lambda>x. x / p ! j) p"
  defines "pre \<equiv> takeWhile (\<lambda>w. w ! j = 0) todo"
  shows "gj_inv n m (map (eliminate j q) finished @ [q]) (map (eliminate j q) (pre @ post))"
    and "Suc (length (pre @ post)) = length todo"
proof -
  have todo: "todo = pre @ p # post"
    using dw takeWhile_dropWhile_id [of "\<lambda>w. w ! j = 0" todo] by (simp add: pre_def j_def)
  show len: "Suc (length (pre @ post)) = length todo"
    using arg_cong [OF todo, of length] by simp
  have pj: "p ! j \<noteq> 0"
    using hd_dropWhile [of "\<lambda>w. w ! j = 0" todo] dw by (simp add: j_def)
  have jn: "j < n"
    using inv todo by (auto simp: gj_inv_def j_def)
  have rows: "\<And>w. w \<in> set finished \<union> set todo \<Longrightarrow> lin_row n m w"
    using inv by (simp add: gj_inv_def)
  have unitc: "\<And>i c. i < j \<Longrightarrow> c < j \<Longrightarrow> finished ! i ! c = (if c = i then 1 else 0)"
    using inv by (simp add: gj_inv_def j_def)
  have zero: "\<And>w c. w \<in> set todo \<Longrightarrow> c < j \<Longrightarrow> w ! c = 0"
    using inv by (simp add: gj_inv_def j_def)
  have p_in: "p \<in> set todo" using arg_cong [OF todo, of set] by simp
  have lp: "length p = 2 * n" using rows [of p] p_in by (simp add: lin_row_def)
  have q_lin: "lin_row n m q"
    unfolding q_def using rows [of p] p_in by (intro lin_row_scale) simp
  have lq: "length q = 2 * n" using q_lin by (simp add: lin_row_def)
  have qj: "q ! j = 1" using pj jn lp by (simp add: q_def)
  have qc: "q ! c = 0" if "c < j" for c
    using that zero [OF p_in that] jn lp by (simp add: q_def)
  have el_nth: "eliminate j q w ! c = w ! c - w ! j * q ! c"
    if "w \<in> set finished \<union> set todo" "c < 2 * n" for w c
    using rows [OF that(1)] lq that(2) by (simp add: eliminate_nth lin_row_def)
  have el_j: "eliminate j q w ! j = 0" if "w \<in> set finished \<union> set todo" for w
    using el_nth [OF that, of j] jn qj by simp
  have el_c: "eliminate j q w ! c = w ! c" if "w \<in> set finished \<union> set todo" "c < j" for w c
    using el_nth [OF that(1), of c] jn qc that(2) by simp
  have sub: "set (pre @ post) \<subseteq> set todo" using arg_cong [OF todo, of set] by auto
  have A: "length (map (eliminate j q) finished @ [q]) + length (map (eliminate j q) (pre @ post)) = n"
    using inv len by (simp add: gj_inv_def)
  have B: "\<forall>w\<in>set (map (eliminate j q) finished @ [q]) \<union> set (map (eliminate j q) (pre @ post)).
      lin_row n m w"
  proof
    fix w assume "w \<in> set (map (eliminate j q) finished @ [q]) \<union> set (map (eliminate j q) (pre @ post))"
    then consider "w = q" | w' where "w' \<in> set finished \<union> set todo" "w = eliminate j q w'"
      using sub by auto
    then show "lin_row n m w"
    proof cases
      case 1
      then show ?thesis using q_lin by simp
    next
      case 2
      then show ?thesis using rows q_lin by (simp add: lin_row_eliminate del: Un_iff)
    qed
  qed
  have C: "\<forall>i<length (map (eliminate j q) finished @ [q]).
      \<forall>c<length (map (eliminate j q) finished @ [q]).
        (map (eliminate j q) finished @ [q]) ! i ! c = (if c = i then 1 else 0)"
  proof (intro allI impI)
    fix i c
    assume "i < length (map (eliminate j q) finished @ [q])"
      and "c < length (map (eliminate j q) finished @ [q])"
    then have i: "i < Suc j" and c: "c < Suc j" by (simp_all add: j_def)
    show "(map (eliminate j q) finished @ [q]) ! i ! c = (if c = i then 1 else 0)"
    proof (cases "i = j")
      case True
      then have "(map (eliminate j q) finished @ [q]) ! i = q"
        by (simp add: nth_append j_def)
      then show ?thesis using True c qj qc by (cases "c = j") simp_all
    next
      case False
      then have ij: "i < j" using i by simp
      then have fi: "finished ! i \<in> set finished \<union> set todo" by (simp add: j_def)
      have row: "(map (eliminate j q) finished @ [q]) ! i = eliminate j q (finished ! i)"
        using ij by (simp add: nth_append j_def)
      show ?thesis
      proof (cases "c = j")
        case True
        then show ?thesis using row el_j [OF fi] ij by simp
      next
        case False
        then have cj: "c < j" using c by simp
        show ?thesis using row el_c [OF fi cj] unitc [OF ij cj] by simp
      qed
    qed
  qed
  have D: "\<forall>w\<in>set (map (eliminate j q) (pre @ post)).
      \<forall>c<length (map (eliminate j q) finished @ [q]). w ! c = 0"
  proof (intro ballI allI impI)
    fix w c
    assume w: "w \<in> set (map (eliminate j q) (pre @ post))"
      and "c < length (map (eliminate j q) finished @ [q])"
    then have c: "c < Suc j" by (simp add: j_def)
    from w sub obtain w' where w': "w' \<in> set todo" "w = eliminate j q w'" by auto
    then have in': "w' \<in> set finished \<union> set todo" by simp
    show "w ! c = 0"
    proof (cases "c = j")
      case True
      then show ?thesis using el_j [OF in'] w'(2) by simp
    next
      case False
      then have cj: "c < j" using c by simp
      show ?thesis using el_c [OF in' cj] zero [OF w'(1) cj] w'(2) by simp
    qed
  qed
  show "gj_inv n m (map (eliminate j q) finished @ [q]) (map (eliminate j q) (pre @ post))"
    unfolding gj_inv_def using A B C D by blast
qed

lemma gj_sound:
  fixes m :: "nat \<Rightarrow> nat \<Rightarrow> 'a::field"
  assumes "gj_inv n m finished todo" "length todo = k"
    and "gauss_jordan k finished todo = Inr res"
  shows "gj_inv n m res []"
  using assms
proof (induction k arbitrary: finished todo)
  case 0
  then show ?case by simp
next
  case (Suc k)
  let ?j = "length finished"
  obtain p post where dw: "dropWhile (\<lambda>w. w ! ?j = 0) todo = p # post"
    using Suc.prems(3) by (cases "dropWhile (\<lambda>w. w ! ?j = 0) todo") (simp_all add: Let_def)
  let ?q = "map (\<lambda>x. x / p ! ?j) p"
  let ?pre = "takeWhile (\<lambda>w. w ! ?j = 0) todo"
  have run: "gauss_jordan k (map (eliminate ?j ?q) finished @ [?q])
               (map (eliminate ?j ?q) (?pre @ post)) = Inr res"
    using Suc.prems(3) dw by (simp add: Let_def)
  from gj_step [OF Suc.prems(1) dw]
  have inv': "gj_inv n m (map (eliminate ?j ?q) finished @ [?q]) (map (eliminate ?j ?q) (?pre @ post))"
    and len': "Suc (length (?pre @ post)) = length todo"
    by simp_all
  have "length (map (eliminate ?j ?q) (?pre @ post)) = k"
    using len' Suc.prems(2) by simp
  from Suc.IH [OF inv' this run] show ?case .
qed

lemma gj_inv_init:
  fixes rows :: "('a::field) list list"
  assumes "\<forall>r\<in>set rows. length r = length rows"
  shows "gj_inv (length rows) (\<lambda>i c. rows ! i ! c) [] (augment rows)"
proof -
  let ?n = "length rows"
  have "lin_row ?n (\<lambda>i c. rows ! i ! c) (rows ! i @ unit_row ?n i)" if i: "i < ?n" for i
  proof -
    have li: "length (rows ! i) = ?n" using assms i by simp
    have "(rows ! i @ unit_row ?n i) ! c
        = (\<Sum>l<?n. (rows ! i @ unit_row ?n i) ! (?n + l) * rows ! l ! c)" if c: "c < ?n" for c
    proof -
      have "(\<Sum>l<?n. (rows ! i @ unit_row ?n i) ! (?n + l) * rows ! l ! c)
          = (\<Sum>l<?n. (if i = l then 1 else 0) * rows ! l ! c)"
        using li by (intro sum.cong) (auto simp: nth_append unit_row_def)
      also have "\<dots> = rows ! i ! c"
        using i by (rule sum_unit_left)
      finally show ?thesis using c li by (simp add: nth_append)
    qed
    then show ?thesis using li by (simp add: lin_row_def unit_row_def)
  qed
  then show ?thesis by (auto simp: gj_inv_def augment_def)
qed

text \<open>Soundness of the inverse: what linalg_inv returns is a left inverse.\<close>

lemma linalg_inv_left_inverse:
  fixes rows :: "('a::field) list list"
  assumes sq: "\<forall>r\<in>set rows. length r = n" "length rows = n"
    and inv: "linalg_inv ((n, n), rows) = Inr Minv"
  shows "fst Minv = (n, n)" "length (snd Minv) = n" "\<forall>r\<in>set (snd Minv). length r = n"
    and "\<forall>a<n. \<forall>b<n. (\<Sum>l<n. snd Minv ! a ! l * rows ! l ! b) = (if a = b then 1 else 0)"
proof -
  from inv obtain ws where ws: "gauss_jordan n [] (augment rows) = Inr ws"
    and Minv: "Minv = ((n, n), map (drop n) ws)"
    by (auto simp: linalg_inv_def then_do_Inr_iff)
  have init: "gj_inv n (\<lambda>i c. rows ! i ! c) [] (augment rows)"
    using gj_inv_init [of rows] sq by simp
  have "length (augment rows) = n" using sq by (simp add: augment_def)
  from gj_sound [OF init this ws]
  have fin: "gj_inv n (\<lambda>i c. rows ! i ! c) ws []" .
  then have lws: "length ws = n"
    and lin: "\<And>w. w \<in> set ws \<Longrightarrow> lin_row n (\<lambda>i c. rows ! i ! c) w"
    and unit: "\<And>i c. i < n \<Longrightarrow> c < n \<Longrightarrow> ws ! i ! c = (if c = i then 1 else 0)"
    by (simp_all add: gj_inv_def)
  show "fst Minv = (n, n)" using Minv by simp
  show "length (snd Minv) = n" using Minv lws by simp
  show "\<forall>r\<in>set (snd Minv). length r = n"
    using Minv lin by (auto simp: lin_row_def)
  show "\<forall>a<n. \<forall>b<n. (\<Sum>l<n. snd Minv ! a ! l * rows ! l ! b) = (if a = b then 1 else 0)"
  proof (intro allI impI)
    fix a b assume a: "a < n" and b: "b < n"
    have wa: "ws ! a \<in> set ws" using a lws by simp
    have la: "length (ws ! a) = 2 * n" using lin [OF wa] by (simp add: lin_row_def)
    have "(\<Sum>l<n. snd Minv ! a ! l * rows ! l ! b) = (\<Sum>l<n. ws ! a ! (n + l) * rows ! l ! b)"
      using Minv a lws la by (intro sum.cong) simp_all
    also have "\<dots> = ws ! a ! b"
      using lin [OF wa] b by (simp add: lin_row_def)
    also have "\<dots> = (if a = b then 1 else 0)"
      using unit [OF a b] by auto
    finally show "(\<Sum>l<n. snd Minv ! a ! l * rows ! l ! b) = (if a = b then 1 else 0)" .
  qed
qed

subsection \<open>Completeness of the elimination\<close>

lemma ker_inv_init:
  fixes rows :: "('a::field) list list"
  assumes "\<forall>r\<in>set rows. length r = length rows"
  shows "ker_inv (length rows) (\<lambda>i c. rows ! i ! c) (augment rows)"
proof -
  let ?n = "length rows"
  have "(\<Sum>c<?n. (rows ! i @ unit_row ?n i) ! c * v c) = (\<Sum>c<?n. rows ! i ! c * v c)"
    if "i < ?n" for i and v :: "nat \<Rightarrow> 'a"
    using assms that by (intro sum.cong refl) (simp add: nth_append)
  then show ?thesis
    by (auto simp: ker_inv_def augment_def)
qed

lemma ker_step:
  fixes m :: "nat \<Rightarrow> nat \<Rightarrow> 'a::field"
  assumes inv: "gj_inv n m finished todo" and ker: "ker_inv n m (finished @ todo)"
    and dw: "dropWhile (\<lambda>w. w ! length finished = 0) todo = p # post"
  defines "j \<equiv> length finished"
  defines "q \<equiv> map (\<lambda>x. x / p ! j) p"
  defines "pre \<equiv> takeWhile (\<lambda>w. w ! j = 0) todo"
  shows "ker_inv n m ((map (eliminate j q) finished @ [q]) @ map (eliminate j q) (pre @ post))"
proof -
  have todo: "todo = pre @ p # post"
    using dw takeWhile_dropWhile_id [of "\<lambda>w. w ! j = 0" todo] by (simp add: pre_def j_def)
  have pj: "p ! j \<noteq> 0"
    using hd_dropWhile [of "\<lambda>w. w ! j = 0" todo] dw by (simp add: j_def)
  have len: "\<And>w. w \<in> set finished \<union> set todo \<Longrightarrow> length w = 2 * n"
    using inv by (simp add: gj_inv_def lin_row_def)
  have p_in: "p \<in> set todo" using arg_cong [OF todo, of set] by simp
  have lp: "length p = 2 * n" using len p_in by simp
  have lq: "length q = 2 * n" using lp by (simp add: q_def)
  have old: "set finished \<union> set todo = insert p (set finished \<union> set (pre @ post))"
    using arg_cong [OF todo, of set] by auto
  have qdot: "(\<Sum>c<n. q ! c * v c) = (\<Sum>c<n. p ! c * v c) / p ! j" for v
  proof -
    have "(\<Sum>c<n. q ! c * v c) = (\<Sum>c<n. p ! c * v c / p ! j)"
      using lp by (intro sum.cong refl) (simp add: q_def)
    then show ?thesis by (simp add: sum_divide_distrib)
  qed
  have edot: "(\<Sum>c<n. eliminate j q w ! c * v c)
      = (\<Sum>c<n. w ! c * v c) - w ! j * (\<Sum>c<n. q ! c * v c)"
    if "w \<in> set finished \<union> set todo" for w v
  proof -
    have "(\<Sum>c<n. eliminate j q w ! c * v c) = (\<Sum>c<n. w ! c * v c - w ! j * (q ! c * v c))"
      using len [OF that] lq by (intro sum.cong refl) (simp add: eliminate_nth algebra_simps)
    then show ?thesis by (simp add: sum_subtractf sum_distrib_left)
  qed
  have "(\<forall>w\<in>set ((map (eliminate j q) finished @ [q]) @ map (eliminate j q) (pre @ post)).
           (\<Sum>c<n. w ! c * v c) = 0)
      \<longleftrightarrow> (\<forall>w\<in>set (finished @ todo). (\<Sum>c<n. w ! c * v c) = 0)" for v
  proof
    assume new: "\<forall>w\<in>set ((map (eliminate j q) finished @ [q]) @ map (eliminate j q) (pre @ post)).
           (\<Sum>c<n. w ! c * v c) = 0"
    then have q0: "(\<Sum>c<n. q ! c * v c) = 0" by simp
    then have p0: "(\<Sum>c<n. p ! c * v c) = 0" using pj by (simp add: qdot)
    have "(\<Sum>c<n. w ! c * v c) = 0" if w: "w \<in> set finished \<union> set (pre @ post)" for w
    proof -
      have "eliminate j q w \<in> set ((map (eliminate j q) finished @ [q]) @ map (eliminate j q) (pre @ post))"
        using w by auto
      with new have "(\<Sum>c<n. eliminate j q w ! c * v c) = 0" by blast
      moreover have "w \<in> set finished \<union> set todo" using w old by blast
      ultimately show ?thesis using edot [of w v] q0 by simp
    qed
    with p0 show "\<forall>w\<in>set (finished @ todo). (\<Sum>c<n. w ! c * v c) = 0"
      using old by auto
  next
    assume oldz: "\<forall>w\<in>set (finished @ todo). (\<Sum>c<n. w ! c * v c) = 0"
    then have p0: "(\<Sum>c<n. p ! c * v c) = 0" using p_in by simp
    then have q0: "(\<Sum>c<n. q ! c * v c) = 0" by (simp add: qdot)
    have "(\<Sum>c<n. eliminate j q w ! c * v c) = 0" if w: "w \<in> set finished \<union> set todo" for w
      using edot [OF w, of v] q0 oldz w by simp
    then have "(\<Sum>c<n. eliminate j q w ! c * v c) = 0" if "w \<in> set finished \<union> set (pre @ post)" for w
      using that old by blast
    with q0 show "\<forall>w\<in>set ((map (eliminate j q) finished @ [q]) @ map (eliminate j q) (pre @ post)).
           (\<Sum>c<n. w ! c * v c) = 0"
      by auto
  qed
  with ker show ?thesis by (simp add: ker_inv_def)
qed

text \<open>When no pivot is left in column j, a nonzero vector is sent to zero by every row.\<close>

lemma no_pivot_kernel:
  fixes m :: "nat \<Rightarrow> nat \<Rightarrow> 'a::field"
  assumes inv: "gj_inv n m finished todo" and ne: "todo \<noteq> []"
    and dw: "dropWhile (\<lambda>w. w ! length finished = 0) todo = []"
  shows "\<exists>v. (\<exists>c<n. v c \<noteq> 0) \<and> (\<forall>w\<in>set (finished @ todo). (\<Sum>c<n. w ! c * v c) = 0)"
proof -
  let ?j = "length finished"
  define v where "v = (\<lambda>c. if c < ?j then - (finished ! c ! ?j) else if c = ?j then 1 else 0)"
  have jn: "?j < n" using inv ne by (cases todo) (auto simp: gj_inv_def)
  have unitc: "\<And>i c. i < ?j \<Longrightarrow> c < ?j \<Longrightarrow> finished ! i ! c = (if c = i then 1 else 0)"
    using inv by (simp add: gj_inv_def)
  have zero: "\<And>w c. w \<in> set todo \<Longrightarrow> c < ?j \<Longrightarrow> w ! c = 0"
    using inv by (simp add: gj_inv_def)
  have zj: "\<And>w. w \<in> set todo \<Longrightarrow> w ! ?j = 0"
    using dw by (simp add: dropWhile_eq_Nil_conv)
  have cut: "(\<Sum>c<n. w ! c * v c) = (\<Sum>c<?j. w ! c * v c) + w ! ?j" for w :: "'a list"
  proof -
    have "(\<Sum>c<n. w ! c * v c) = (\<Sum>c<Suc ?j. w ! c * v c)"
      using jn by (intro sum.mono_neutral_right) (auto simp: v_def)
    then show ?thesis by (simp add: v_def)
  qed
  have fin: "(\<Sum>c<n. w ! c * v c) = 0" if "w \<in> set finished" for w
  proof -
    from that obtain i where i: "i < ?j" "w = finished ! i"
      by (auto simp: in_set_conv_nth)
    have "(\<Sum>c<?j. w ! c * v c) = (\<Sum>c<?j. (if i = c then 1 else 0) * v c)"
      using i unitc by (intro sum.cong refl) auto
    also have "\<dots> = v i" using i(1) by (rule sum_unit_left)
    finally have s: "(\<Sum>c<?j. w ! c * v c) = v i" .
    have vi: "v i = - (w ! ?j)" using i by (simp add: v_def)
    show ?thesis unfolding cut s vi by simp
  qed
  have tod: "(\<Sum>c<n. w ! c * v c) = 0" if "w \<in> set todo" for w
  proof -
    have "(\<Sum>c<?j. w ! c * v c) = 0"
      using zero [OF that] by simp
    then show ?thesis using zj [OF that] by (simp add: cut)
  qed
  have "v ?j \<noteq> 0" by (simp add: v_def)
  with jn have "\<exists>c<n. v c \<noteq> 0" by blast
  moreover have "\<forall>w\<in>set (finished @ todo). (\<Sum>c<n. w ! c * v c) = 0"
    using fin tod by auto
  ultimately show ?thesis by blast
qed

lemma gj_complete:
  fixes m :: "nat \<Rightarrow> nat \<Rightarrow> 'a::field"
  assumes "gj_inv n m finished todo" "ker_inv n m (finished @ todo)" "length todo = k"
    and "gauss_jordan k finished todo = Inl e"
  shows "\<exists>v. (\<exists>c<n. v c \<noteq> 0) \<and> (\<forall>i<n. (\<Sum>c<n. m i c * v c) = 0)"
  using assms
proof (induction k arbitrary: finished todo)
  case 0
  then show ?case by simp
next
  case (Suc k)
  let ?j = "length finished"
  show ?case
  proof (cases "dropWhile (\<lambda>w. w ! ?j = 0) todo")
    case Nil
    have "todo \<noteq> []" using Suc.prems(3) by auto
    from no_pivot_kernel [OF Suc.prems(1) this Nil]
    obtain v where v: "\<exists>c<n. v c \<noteq> 0" "\<forall>w\<in>set (finished @ todo). (\<Sum>c<n. w ! c * v c) = 0"
      by blast
    from v(2) Suc.prems(2) have "\<forall>i<n. (\<Sum>c<n. m i c * v c) = 0"
      unfolding ker_inv_def by blast
    with v(1) show ?thesis by blast
  next
    case (Cons p post)
    let ?q = "map (\<lambda>x. x / p ! ?j) p"
    let ?pre = "takeWhile (\<lambda>w. w ! ?j = 0) todo"
    have run: "gauss_jordan k (map (eliminate ?j ?q) finished @ [?q])
               (map (eliminate ?j ?q) (?pre @ post)) = Inl e"
      using Suc.prems(4) by (simp add: Let_def Cons)
    from gj_step [OF Suc.prems(1) Cons]
    have inv': "gj_inv n m (map (eliminate ?j ?q) finished @ [?q]) (map (eliminate ?j ?q) (?pre @ post))"
      and len': "Suc (length (?pre @ post)) = length todo"
      by simp_all
    have ker': "ker_inv n m ((map (eliminate ?j ?q) finished @ [?q]) @ map (eliminate ?j ?q) (?pre @ post))"
      by (rule ker_step [OF Suc.prems(1,2) Cons])
    have "length (map (eliminate ?j ?q) (?pre @ post)) = k"
      using len' Suc.prems(3) by simp
    from Suc.IH [OF inv' ker' this run] show ?thesis .
  qed
qed

text \<open>Completeness of the inverse: it fails on singular matrices only.\<close>

lemma linalg_inv_complete:
  fixes rows :: "('a::field) list list"
  assumes sq: "\<forall>r\<in>set rows. length r = n" "length rows = n"
    and R: "\<forall>a<n. \<forall>b<n. (\<Sum>l<n. R a l * rows ! l ! b) = (if a = b then 1 else 0)"
  shows "\<exists>Minv. linalg_inv ((n, n), rows) = Inr Minv"
proof (cases "gauss_jordan n [] (augment rows)")
  case (Inl e)
  have init: "gj_inv n (\<lambda>i c. rows ! i ! c) [] (augment rows)"
    using gj_inv_init [of rows] sq by simp
  have kinit: "ker_inv n (\<lambda>i c. rows ! i ! c) ([] @ augment rows)"
    using ker_inv_init [of rows] sq by simp
  have "length (augment rows) = n" using sq by (simp add: augment_def)
  from gj_complete [OF init kinit this Inl]
  obtain v where v: "\<exists>c<n. v c \<noteq> 0" "\<forall>i<n. (\<Sum>c<n. rows ! i ! c * v c) = 0"
    by blast
  have "v c = 0" if "c < n" for c
    by (rule left_inverse_kernel [where X = R and n = n and p = n and Y = "\<lambda>l b. rows ! l ! b"])
       (use R v(2) that in simp_all)
  with v(1) show ?thesis by blast
next
  case (Inr ws)
  then show ?thesis by (simp add: linalg_inv_def)
qed

subsection \<open>The normal equations in closed form\<close>

lemma column_table:
  assumes "a < nat (A + B + 1)"
  shows "column (sh, phi_table xi fxi A B) a = map (\<lambda>i. phi_val xi fxi A i a) [0..<length xi]"
  using assms by (simp add: column_def phi_table_def)

lemma solve_coefficients_closed:
  fixes xi fxi :: "('a::field) list"
  assumes len: "length fxi = length xi" and N: "0 \<le> A + B + 1"
  shows "solve_coefficients xi fxi A B =
           then_do (linalg_inv ((nat (A + B + 1), nat (A + B + 1)), normal_matrix xi fxi A B))
             (\<lambda>Minv. dot_mv Minv (source_vector xi fxi A B))"
proof -
  let ?n = "length xi" and ?N = "nat (A + B + 1)"
  let ?phi = "((?n, ?N), phi_table xi fxi A B)"
  have d: "dot_vm fxi ?phi = Inr (source_vector xi fxi A B)"
  proof -
    have "map (\<lambda>a. dot fxi (column ?phi a)) [0..<?N] = source_vector xi fxi A B"
      unfolding source_vector_def
      by (rule map_cong [OF refl]) (simp add: column_table dot_sum [of _ ?n] len)
    then show ?thesis using len by (simp add: dot_vm_def)
  qed
  have M: "dot_mm (np_transpose ?phi) ?phi = Inr ((?N, ?N), normal_matrix xi fxi A B)"
  proof -
    have "map (\<lambda>r. map (\<lambda>b. dot r (column ?phi b)) [0..<?N]) (map (column ?phi) [0..<?N])
        = normal_matrix xi fxi A B"
      unfolding normal_matrix_def map_map
    proof (rule map_cong [OF refl])
      fix a assume a: "a \<in> set [0..<?N]"
      show "((\<lambda>r. map (\<lambda>b. dot r (column ?phi b)) [0..<?N]) \<circ> column ?phi) a
          = map (\<lambda>b. \<Sum>i<?n. phi_val xi fxi A i a * phi_val xi fxi A i b) [0..<?N]"
        unfolding comp_def
        by (rule map_cong [OF refl]) (use a in \<open>simp add: column_table dot_sum [of _ ?n]\<close>)
    qed
    then show ?thesis by (simp add: dot_mm_def np_transpose_def)
  qed
  show ?thesis
    unfolding solve_coefficients_def design_matrix_table [OF len N]
    by (simp add: d M)
qed

lemma design_matrix_nonneg:
  assumes "design_matrix xi fxi A B = Inr phi"
  shows "0 \<le> A + B + 1"
  using assms by (auto simp: design_matrix_def np_zeros_def Let_def split: if_splits)

lemma solve_coefficients_wellformed:
  assumes "solve_coefficients xi fxi A B = Inr c"
  shows "length fxi = length xi" and "0 \<le> A + B + 1"
proof -
  from assms obtain phi d where phi: "design_matrix xi fxi A B = Inr phi"
    and d: "dot_vm fxi phi = Inr d"
    by (auto simp: solve_coefficients_def then_do_Inr_iff)
  show "0 \<le> A + B + 1" using phi by (rule design_matrix_nonneg)
  have "length fxi = fst (fst phi)"
    using d by (auto simp: dot_vm_def split: if_splits)
  then show "length fxi = length xi"
    using design_matrix_shape [OF phi] by simp
qed

lemma normal_matrix_square:
  "length (normal_matrix xi fxi A B) = nat (A + B + 1)"
  "\<forall>r\<in>set (normal_matrix xi fxi A B). length r = nat (A + B + 1)"
  by (auto simp: normal_matrix_def)

lemma normal_matrix_nth:
  "a < nat (A + B + 1) \<Longrightarrow> b < nat (A + B + 1) \<Longrightarrow>
   normal_matrix xi fxi A B ! a ! b
     = (\<Sum>i<length xi. phi_val xi fxi A i a * phi_val xi fxi A i b)"
  by (simp add: normal_matrix_def)

lemma source_vector_nth:
  "a < nat (A + B + 1) \<Longrightarrow>
   source_vector xi fxi A B ! a = (\<Sum>i<length xi. fxi ! i * phi_val xi fxi A i a)"
  by (simp add: source_vector_def)

text \<open>What a successful run computes: a left inverse of the normal matrix applied to the
  source vector.\<close>

lemma solve_coefficients_Inr:
  fixes xi fxi :: "('a::field) list"
  assumes "solve_coefficients xi fxi A B = Inr c"
  shows "\<exists>R. (\<forall>a<nat (A + B + 1). \<forall>b<nat (A + B + 1).
            (\<Sum>l<nat (A + B + 1). R a l * normal_matrix xi fxi A B ! l ! b)
              = (if a = b then 1 else 0))
          \<and> length c = nat (A + B + 1)
          \<and> (\<forall>a<nat (A + B + 1).
               c ! a = (\<Sum>b<nat (A + B + 1). R a b * source_vector xi fxi A B ! b))"
proof -
  let ?N = "nat (A + B + 1)"
  note wf = solve_coefficients_wellformed [OF assms]
  from assms obtain Minv where inv: "linalg_inv ((?N, ?N), normal_matrix xi fxi A B) = Inr Minv"
    and c: "dot_mv Minv (source_vector xi fxi A B) = Inr c"
    unfolding solve_coefficients_closed [OF wf] by (auto simp: then_do_Inr_iff)
  note facts = linalg_inv_left_inverse [OF normal_matrix_square(2,1) inv]
  have cdef: "c = map (\<lambda>r. dot r (source_vector xi fxi A B)) (snd Minv)"
    using c by (auto simp: dot_mv_def split: if_splits)
  have lc: "length c = ?N" using cdef facts(2) by simp
  have "c ! a = (\<Sum>b<?N. snd Minv ! a ! b * source_vector xi fxi A B ! b)" if a: "a < ?N" for a
  proof -
    have "length (snd Minv ! a) = ?N" using facts(2,3) a by simp
    then show ?thesis
      using a facts(2) by (simp add: cdef dot_sum [of _ ?N] source_vector_def)
  qed
  with facts(4) lc show ?thesis
    by (intro exI [of _ "\<lambda>a l. snd Minv ! a ! l"]) simp
qed

lemma gauss_jordan_error:
  "gauss_jordan k finished todo = Inl e \<Longrightarrow> e = LinAlgError"
proof (induction k arbitrary: finished todo)
  case 0
  then show ?case by simp
next
  case (Suc k)
  show ?case
  proof (cases "dropWhile (\<lambda>w. w ! length finished = 0) todo")
    case Nil
    show ?thesis using Suc.prems by (simp add: Let_def Nil)
  next
    case (Cons p post)
    show ?thesis using Suc.prems Suc.IH by (simp add: Let_def Cons)
  qed
qed

lemma solve_coefficients_error:
  fixes xi fxi :: "('a::field) list"
  assumes len: "length fxi = length xi" and N: "0 \<le> A + B + 1"
    and err: "solve_coefficients xi fxi A B = Inl e"
  shows "e = LinAlgError"
proof -
  let ?N = "nat (A + B + 1)"
  let ?M = "((?N, ?N), normal_matrix xi fxi A B)"
  show ?thesis
  proof (cases "linalg_inv ?M")
    case (Inl e')
    then have "e' = LinAlgError"
      by (auto simp: linalg_inv_def then_do_def split: sum.splits dest: gauss_jordan_error)
    with Inl err show ?thesis
      unfolding solve_coefficients_closed [OF len N] by simp
  next
    case (Inr Minv)
    from linalg_inv_left_inverse(1) [OF normal_matrix_square(2,1) Inr]
    have "dot_mv Minv (source_vector xi fxi A B) \<noteq> Inl e"
      by (simp add: dot_mv_def source_vector_def)
    with Inr err show ?thesis
      unfolding solve_coefficients_closed [OF len N] by simp
  qed
qed


lemma find_rational_Inr_iff:
  "find_rational xi fxi A B = Inr (num, den) \<longleftrightarrow>
     (\<exists>c. solve_coefficients xi fxi A B = Inr c
        \<and> num = poly1d (rev (slice_to c (A + 1)))
        \<and> den = poly1d (rev (slice_from c (A + 1)) @ [1]))"
  by (auto simp: find_rational_def then_do_Inr_iff)

lemma find_rational_Inl_iff:
  "find_rational xi fxi A B = Inl e \<longleftrightarrow> solve_coefficients xi fxi A B = Inl e"
  by (cases "solve_coefficients xi fxi A B") (simp_all add: find_rational_def)

text \<open>The fit returns on every table whose normal matrix has an inverse.\<close>

lemma find_rational_returns:
  fixes xi fxi :: "('a::field) list"
  assumes len: "length fxi = length xi" and N: "0 \<le> A + B + 1"
    and R: "\<forall>a<nat (A + B + 1). \<forall>b<nat (A + B + 1).
              (\<Sum>l<nat (A + B + 1). R a l * normal_matrix xi fxi A B ! l ! b)
                = (if a = b then 1 else 0)"
  shows "\<exists>num den. find_rational xi fxi A B = Inr (num, den)"
proof -
  let ?N = "nat (A + B + 1)"
  from linalg_inv_complete [OF normal_matrix_square(2,1) R]
  obtain Minv where Minv: "linalg_inv ((?N, ?N), normal_matrix xi fxi A B) = Inr Minv"
    by blast
  from linalg_inv_left_inverse(1) [OF normal_matrix_square(2,1) Minv]
  have "\<exists>c. dot_mv Minv (source_vector xi fxi A B) = Inr c"
    by (simp add: dot_mv_def source_vector_def)
  then obtain c where "solve_coefficients xi fxi A B = Inr c"
    unfolding solve_coefficients_closed [OF len N] using Minv by auto
  then show ?thesis by (simp add: find_rational_def)
qed

subsection \<open>What the fitted coefficients satisfy\<close>

lemma polyval_rev:
  fixes x :: "'a::comm_semiring_1"
  shows "polyval (rev cs) x = (\<Sum>k<length cs. cs ! k * x ^ k)"
proof (induction cs)
  case Nil
  show ?case by (simp add: polyval_def)
next
  case (Cons c cs)
  have "polyval (rev (c # cs)) x = polyval (rev cs) x * x + c"
    by (simp add: polyval_snoc)
  also have "\<dots> = (\<Sum>k<length cs. cs ! k * x ^ Suc k) + c"
    by (simp add: Cons.IH sum_distrib_left sum_distrib_right algebra_simps)
  also have "\<dots> = (\<Sum>k<Suc (length cs). (c # cs) ! k * x ^ k)"
    unfolding sum.lessThan_Suc_shift by (simp add: add.commute)
  finally show ?case by simp
qed

lemma slices_nonneg:
  assumes "0 \<le> A" "0 \<le> B" "length c = nat (A + B + 1)"
  shows "slice_to c (A + 1) = take (nat A + 1) c"
    and "slice_from c (A + 1) = drop (nat A + 1) c"
proof -
  have "slice_bound (length c) (A + 1) = nat A + 1"
    using assms by (simp add: slice_bound_def min_def nat_add_distrib)
  then show "slice_to c (A + 1) = take (nat A + 1) c"
    and "slice_from c (A + 1) = drop (nat A + 1) c"
    by (simp_all add: slice_to_def slice_from_def)
qed

lemma sum_lessThan_add:
  fixes f :: "nat \<Rightarrow> 'a::comm_monoid_add"
  shows "(\<Sum>k<m + n. f k) = (\<Sum>k<m. f k) + (\<Sum>k<n. f (m + k))"
  by (induction n) (simp_all add: add.assoc)

text \<open>Row i of the design matrix applied to a coefficient vector.\<close>

lemma row_sum:
  fixes xi fxi :: "('a::field) list"
  assumes A: "0 \<le> A" and B: "0 \<le> B"
  shows "(\<Sum>a<nat (A + B + 1). phi_val xi fxi A i a * t a)
       = (\<Sum>a<nat A + 1. t a * xi ! i ^ a)
         - fxi ! i * (xi ! i * (\<Sum>k<nat B. t (nat A + 1 + k) * xi ! i ^ k))"
proof -
  let ?m = "nat A + 1" and ?x = "xi ! i" and ?y = "fxi ! i"
  have N: "nat (A + B + 1) = ?m + nat B"
    using A B by (simp add: nat_add_distrib)
  have low: "(\<Sum>a<?m. phi_val xi fxi A i a * t a) = (\<Sum>a<?m. t a * ?x ^ a)"
  proof (rule sum.cong [OF refl])
    fix a assume "a \<in> {..<?m}"
    then have "int a \<le> A" using A by simp
    then show "phi_val xi fxi A i a * t a = t a * ?x ^ a"
      by (simp add: phi_val_def)
  qed
  have high: "(\<Sum>k<nat B. phi_val xi fxi A i (?m + k) * t (?m + k))
      = - (?y * (?x * (\<Sum>k<nat B. t (?m + k) * ?x ^ k)))"
  proof -
    have "phi_val xi fxi A i (?m + k) * t (?m + k) = - (?y * (?x * (t (?m + k) * ?x ^ k)))" for k
    proof -
      have "\<not> int (?m + k) \<le> A" using A by simp
      moreover have "nat (int (?m + k) - A) = Suc k" using A by simp
      ultimately show ?thesis by (simp add: phi_val_def)
    qed
    then show ?thesis by (simp add: sum_negf sum_distrib_left)
  qed
  have "(\<Sum>a<nat (A + B + 1). phi_val xi fxi A i a * t a)
      = (\<Sum>a<?m + nat B. phi_val xi fxi A i a * t a)"
    by (simp only: N)
  also have "\<dots> = (\<Sum>a<?m. phi_val xi fxi A i a * t a)
      + (\<Sum>k<nat B. phi_val xi fxi A i (?m + k) * t (?m + k))"
    by (rule sum_lessThan_add)
  also have "\<dots> = (\<Sum>a<?m. t a * ?x ^ a) - ?y * (?x * (\<Sum>k<nat B. t (?m + k) * ?x ^ k))"
    by (simp only: low high add_uminus_conv_diff)
  finally show ?thesis .
qed

lemma solve_normal_equations:
  fixes xi fxi :: "('a::field) list"
  assumes "solve_coefficients xi fxi A B = Inr c" and a: "a < nat (A + B + 1)"
  shows "(\<Sum>b<nat (A + B + 1). normal_matrix xi fxi A B ! a ! b * c ! b)
           = source_vector xi fxi A B ! a"
proof -
  let ?N = "nat (A + B + 1)"
  let ?G = "\<lambda>l b. normal_matrix xi fxi A B ! l ! b" and ?d = "\<lambda>b. source_vector xi fxi A B ! b"
  from solve_coefficients_Inr [OF assms(1)]
  obtain R where RG: "\<And>a b. a < ?N \<Longrightarrow> b < ?N \<Longrightarrow> (\<Sum>l<?N. R a l * ?G l b) = (if a = b then 1 else 0)"
    and c: "\<And>a. a < ?N \<Longrightarrow> c ! a = (\<Sum>b<?N. R a b * ?d b)"
    by auto
  have GR: "(\<Sum>l<?N. ?G a l * R l b) = (if a = b then 1 else 0)" if "b < ?N" for b
    by (rule left_inverse_right [where X = R and Y = ?G]) (use RG a that in simp_all)
  have "(\<Sum>b<?N. ?G a b * c ! b) = (\<Sum>b<?N. ?G a b * (\<Sum>l<?N. R b l * ?d l))"
    by (intro sum.cong refl) (simp add: c)
  also have "\<dots> = (\<Sum>l<?N. (\<Sum>b<?N. ?G a b * R b l) * ?d l)"
    by (rule matvec_assoc [symmetric])
  also have "\<dots> = (\<Sum>l<?N. (if a = l then 1 else 0) * ?d l)"
    by (intro sum.cong refl) (simp add: GR)
  also have "\<dots> = ?d a"
    using a by (rule sum_unit_left)
  finally show ?thesis .
qed

lemma exact_solution_unique:
  fixes xi fxi :: "('a::field) list"
  assumes "solve_coefficients xi fxi A B = Inr c"
    and exact: "\<And>i. i < length xi \<Longrightarrow>
                 (\<Sum>a<nat (A + B + 1). phi_val xi fxi A i a * t a) = fxi ! i"
    and a: "a < nat (A + B + 1)"
  shows "c ! a = t a"
proof -
  let ?N = "nat (A + B + 1)" and ?F = "phi_val xi fxi A"
  let ?G = "\<lambda>l b. normal_matrix xi fxi A B ! l ! b" and ?d = "\<lambda>b. source_vector xi fxi A B ! b"
  from solve_coefficients_Inr [OF assms(1)]
  obtain R where RG: "\<And>a b. a < ?N \<Longrightarrow> b < ?N \<Longrightarrow> (\<Sum>l<?N. R a l * ?G l b) = (if a = b then 1 else 0)"
    and c: "\<And>a. a < ?N \<Longrightarrow> c ! a = (\<Sum>b<?N. R a b * ?d b)"
    by auto
  have d: "?d b = (\<Sum>l<?N. ?G b l * t l)" if b: "b < ?N" for b
  proof -
    have "?d b = (\<Sum>i<length xi. ?F i b * fxi ! i)"
      using b by (simp add: source_vector_nth mult.commute)
    also have "\<dots> = (\<Sum>i<length xi. ?F i b * (\<Sum>l<?N. ?F i l * t l))"
      by (intro sum.cong refl) (simp add: exact)
    also have "\<dots> = (\<Sum>l<?N. (\<Sum>i<length xi. ?F i b * ?F i l) * t l)"
      by (rule matvec_assoc [symmetric])
    also have "\<dots> = (\<Sum>l<?N. ?G b l * t l)"
      using b by (intro sum.cong refl) (simp add: normal_matrix_nth)
    finally show ?thesis .
  qed
  have "c ! a = (\<Sum>b<?N. R a b * (\<Sum>l<?N. ?G b l * t l))"
    unfolding c [OF a] by (intro sum.cong refl) (simp add: d)
  also have "\<dots> = (\<Sum>l<?N. (\<Sum>b<?N. R a b * ?G b l) * t l)"
    by (rule matvec_assoc [symmetric])
  also have "\<dots> = (\<Sum>l<?N. (if a = l then 1 else 0) * t l)"
    using a by (intro sum.cong refl) (simp add: RG)
  also have "\<dots> = t a"
    using a by (rule sum_unit_left)
  finally show ?thesis .
qed

lemma square_interpolates:
  fixes xi fxi :: "('a::field) list"
  assumes "solve_coefficients xi fxi A B = Inr c"
    and sq: "length xi = nat (A + B + 1)"
    and i: "i < length xi"
  shows "(\<Sum>a<nat (A + B + 1). phi_val xi fxi A i a * c ! a) = fxi ! i"
proof -
  let ?N = "nat (A + B + 1)" and ?F = "phi_val xi fxi A"
  let ?G = "\<lambda>l b. normal_matrix xi fxi A B ! l ! b" and ?d = "\<lambda>b. source_vector xi fxi A B ! b"
  from solve_coefficients_Inr [OF assms(1)]
  obtain R where RG: "\<And>a b. a < ?N \<Longrightarrow> b < ?N \<Longrightarrow> (\<Sum>l<?N. R a l * ?G l b) = (if a = b then 1 else 0)"
    and c: "\<And>a. a < ?N \<Longrightarrow> c ! a = (\<Sum>b<?N. R a b * ?d b)"
    by auto
  define L where "L = (\<lambda>a k. \<Sum>b<?N. R a b * ?F k b)"
  have LF: "(\<Sum>k<?N. L a k * ?F k b) = (if a = b then 1 else 0)" if "a < ?N" "b < ?N" for a b
  proof -
    have "(\<Sum>k<?N. L a k * ?F k b) = (\<Sum>l<?N. R a l * (\<Sum>k<?N. ?F k l * ?F k b))"
      unfolding L_def by (rule matvec_assoc)
    also have "\<dots> = (\<Sum>l<?N. R a l * ?G l b)"
      using that(2) by (intro sum.cong refl) (simp add: normal_matrix_nth sq)
    finally show ?thesis using RG that by simp
  qed
  have FL: "(\<Sum>a<?N. ?F i a * L a k) = (if i = k then 1 else 0)" if "k < ?N" for k
    by (rule left_inverse_right [where X = L and Y = ?F]) (use LF i sq that in simp_all)
  have cL: "c ! a = (\<Sum>k<?N. L a k * fxi ! k)" if a: "a < ?N" for a
  proof -
    have "c ! a = (\<Sum>b<?N. R a b * (\<Sum>k<?N. ?F k b * fxi ! k))"
      unfolding c [OF a]
      by (intro sum.cong refl) (simp add: source_vector_nth sq mult.commute)
    also have "\<dots> = (\<Sum>k<?N. L a k * fxi ! k)"
      unfolding L_def by (rule matvec_assoc [symmetric])
    finally show ?thesis .
  qed
  have "(\<Sum>a<?N. ?F i a * c ! a) = (\<Sum>a<?N. ?F i a * (\<Sum>k<?N. L a k * fxi ! k))"
    by (intro sum.cong refl) (simp add: cL)
  also have "\<dots> = (\<Sum>k<?N. (\<Sum>a<?N. ?F i a * L a k) * fxi ! k)"
    by (rule matvec_assoc [symmetric])
  also have "\<dots> = (\<Sum>k<?N. (if i = k then 1 else 0) * fxi ! k)"
    by (intro sum.cong refl) (simp add: FL)
  also have "\<dots> = fxi ! i"
    using i sq by (intro sum_unit_left) simp
  finally show ?thesis .
qed

text \<open>The two polynomials returned, for degrees that are not negative.\<close>

lemma find_rational_polynomials:
  fixes xi fxi :: "('a::field) list"
  assumes ret: "find_rational xi fxi A B = Inr (num, den)" and A: "0 \<le> A" and B: "0 \<le> B"
  shows "\<exists>c. solve_coefficients xi fxi A B = Inr c \<and> length c = nat (A + B + 1)
           \<and> num = poly1d (rev (take (nat A + 1) c))
           \<and> den = poly1d (rev (drop (nat A + 1) c) @ [1])
           \<and> (\<forall>x. polyval num x = (\<Sum>a<nat A + 1. c ! a * x ^ a))
           \<and> (\<forall>x. polyval den x = 1 + x * (\<Sum>k<nat B. c ! (nat A + 1 + k) * x ^ k))"
proof -
  from ret obtain c where c: "solve_coefficients xi fxi A B = Inr c"
    and num: "num = poly1d (rev (slice_to c (A + 1)))"
    and den: "den = poly1d (rev (slice_from c (A + 1)) @ [1])"
    by (auto simp: find_rational_Inr_iff)
  from solve_coefficients_Inr [OF c] have lc: "length c = nat (A + B + 1)" by blast
  have N: "nat (A + B + 1) = nat A + 1 + nat B"
    using A B by (simp add: nat_add_distrib)
  note sl = slices_nonneg [OF A B lc]
  have pn: "polyval num x = (\<Sum>a<nat A + 1. c ! a * x ^ a)" for x
  proof -
    have "polyval num x = (\<Sum>a<length (take (nat A + 1) c). take (nat A + 1) c ! a * x ^ a)"
      unfolding num sl polyval_poly1d by (rule polyval_rev)
    also have "\<dots> = (\<Sum>a<nat A + 1. c ! a * x ^ a)"
      using lc N by (intro sum.cong) simp_all
    finally show ?thesis .
  qed
  have pd: "polyval den x = 1 + x * (\<Sum>k<nat B. c ! (nat A + 1 + k) * x ^ k)" for x
  proof -
    have "polyval den x = polyval (rev (drop (nat A + 1) c)) x * x + 1"
      unfolding den sl polyval_poly1d by (rule polyval_snoc)
    also have "polyval (rev (drop (nat A + 1) c)) x
        = (\<Sum>k<length (drop (nat A + 1) c). drop (nat A + 1) c ! k * x ^ k)"
      by (rule polyval_rev)
    also have "\<dots> = (\<Sum>k<nat B. c ! (nat A + 1 + k) * x ^ k)"
      using lc N by (intro sum.cong) simp_all
    finally show ?thesis by (simp add: mult.commute)
  qed
  show ?thesis using c lc num den sl pn pd by auto
qed

lemma evaluate_single:
  "evaluate (num, den) [x] = Inr [np_divide (polyval num x) (polyval den x)]"
  by (simp add: evaluate_def)

lemma phi_table_nth:
  "i < length xi \<Longrightarrow> a < nat (A + B + 1) \<Longrightarrow>
   phi_table xi fxi A B ! i ! a = phi_val xi fxi A i a"
  by (simp add: phi_table_def)

text \<open>Interpolation and recovery, for a call that returned.\<close>

lemma interpolates_when_returned:
  fixes xi fxi :: "('a::field) list"
  assumes ret: "find_rational xi fxi A B = Inr (num, den)" and A: "0 \<le> A" and B: "0 \<le> B"
    and sq: "int (length xi) = A + B + 1" and i: "i < length xi"
  shows "fxi ! i * polyval den (xi ! i) = polyval num (xi ! i)
       \<and> (polyval den (xi ! i) \<noteq> 0 \<longrightarrow>
            evaluate (num, den) [xi ! i] = Inr [Finite (fxi ! i)])"
proof -
  let ?x = "xi ! i" and ?y = "fxi ! i"
  from find_rational_polynomials [OF ret A B]
  obtain c where c: "solve_coefficients xi fxi A B = Inr c"
    and pn: "polyval num ?x = (\<Sum>a<nat A + 1. c ! a * ?x ^ a)"
    and pd: "polyval den ?x = 1 + ?x * (\<Sum>k<nat B. c ! (nat A + 1 + k) * ?x ^ k)"
    by blast
  have "length xi = nat (A + B + 1)" using sq by simp
  from square_interpolates [OF c this i]
  have "(\<Sum>a<nat (A + B + 1). phi_val xi fxi A i a * c ! a) = ?y" .
  then have "polyval num ?x - ?y * (polyval den ?x - 1) = ?y"
    unfolding row_sum [OF A B] pn pd by simp
  then have eq: "?y * polyval den ?x = polyval num ?x"
    by (simp add: algebra_simps)
  have "np_divide (polyval num ?x) (polyval den ?x) = Finite ?y" if "polyval den ?x \<noteq> 0"
    using that eq [symmetric] by (simp add: np_divide_def)
  with eq show ?thesis by (simp add: evaluate_single)
qed

lemma recovers_when_returned:
  fixes xi fxi :: "('a::field) list"
  assumes ret: "find_rational xi fxi A B = Inr (num, den)" and A: "0 \<le> A" and B: "0 \<le> B"
    and lN: "length cN = nat A + 1" and lD: "length cD = nat B"
    and on: "\<forall>i<length xi. polyval (rev cD @ [1]) (xi ! i) \<noteq> 0
               \<and> fxi ! i = polyval (rev cN) (xi ! i) / polyval (rev cD @ [1]) (xi ! i)"
  shows "num = poly1d (rev cN) \<and> den = poly1d (rev cD @ [1])
       \<and> evaluate (num, den) xi = Inr (map Finite fxi)"
proof -
  let ?N = "nat (A + B + 1)"
  from find_rational_polynomials [OF ret A B]
  obtain c where c: "solve_coefficients xi fxi A B = Inr c" and lc: "length c = ?N"
    and num: "num = poly1d (rev (take (nat A + 1) c))"
    and den: "den = poly1d (rev (drop (nat A + 1) c) @ [1])"
    by blast
  have N: "?N = nat A + 1 + nat B"
    using A B by (simp add: nat_add_distrib)
  let ?t = "\<lambda>a. (cN @ cD) ! a"
  have exact: "(\<Sum>a<?N. phi_val xi fxi A i a * ?t a) = fxi ! i" if i: "i < length xi" for i
  proof -
    let ?x = "xi ! i" and ?y = "fxi ! i"
    have pn: "polyval (rev cN) ?x = (\<Sum>a<nat A + 1. ?t a * ?x ^ a)"
      unfolding polyval_rev lN by (intro sum.cong refl) (simp add: nth_append lN)
    have pd: "polyval (rev cD @ [1]) ?x = 1 + ?x * (\<Sum>k<nat B. ?t (nat A + 1 + k) * ?x ^ k)"
    proof -
      have "polyval (rev cD @ [1]) ?x = polyval (rev cD) ?x * ?x + 1"
        by (rule polyval_snoc)
      also have "polyval (rev cD) ?x = (\<Sum>k<nat B. ?t (nat A + 1 + k) * ?x ^ k)"
        unfolding polyval_rev lD by (intro sum.cong refl) (simp add: nth_append lN)
      finally show ?thesis by (simp add: mult.commute)
    qed
    from on i have nz: "polyval (rev cD @ [1]) ?x \<noteq> 0"
      and y: "?y = polyval (rev cN) ?x / polyval (rev cD @ [1]) ?x"
      by simp_all
    have "?y * polyval (rev cD @ [1]) ?x = polyval (rev cN) ?x"
      using nz y by simp
    then have "polyval (rev cN) ?x - ?y * (polyval (rev cD @ [1]) ?x - 1) = ?y"
      by (simp add: algebra_simps)
    then show ?thesis
      unfolding row_sum [OF A B] pn [symmetric] using pd by simp
  qed
  have "c = cN @ cD"
  proof (rule nth_equalityI)
    show "length c = length (cN @ cD)" using lc N lN lD by simp
  next
    fix a assume "a < length c"
    then have "a < ?N" using lc by simp
    then show "c ! a = (cN @ cD) ! a"
      using exact by (intro exact_solution_unique [OF c]) simp_all
  qed
  then have tk: "take (nat A + 1) c = cN" and dr: "drop (nat A + 1) c = cD"
    using lN by simp_all
  have n': "num = poly1d (rev cN)" and d': "den = poly1d (rev cD @ [1])"
    using num den tk dr by simp_all
  have "map (\<lambda>x. np_divide (polyval num x) (polyval den x)) xi = map Finite fxi"
  proof (rule nth_equalityI)
    show "length (map (\<lambda>x. np_divide (polyval num x) (polyval den x)) xi) = length (map Finite fxi)"
      using solve_coefficients_wellformed(1) [OF c] by simp
  next
    fix i assume "i < length (map (\<lambda>x. np_divide (polyval num x) (polyval den x)) xi)"
    then have i: "i < length xi" by simp
    then have i': "i < length fxi" using solve_coefficients_wellformed(1) [OF c] by simp
    from on i have "polyval (rev cD @ [1]) (xi ! i) \<noteq> 0"
      and "fxi ! i = polyval (rev cN) (xi ! i) / polyval (rev cD @ [1]) (xi ! i)"
      by simp_all
    then show "map (\<lambda>x. np_divide (polyval num x) (polyval den x)) xi ! i = map Finite fxi ! i"
      using i i' by (simp add: n' d' polyval_poly1d np_divide_def)
  qed
  with n' d' show ?thesis by (simp add: evaluate_def)
qed

subsection \<open>The rounded model\<close>








lemma find_rational_rounded_Inr_iff:
  "find_rational_rounded E xi fxi A B = Inr (num, den) \<longleftrightarrow>
     (\<exists>c. solve_coefficients_rounded E xi fxi A B = Inr c
        \<and> num = poly1d (rev (slice_to c (A + 1)))
        \<and> den = poly1d (rev (slice_from c (A + 1)) @ [1]))"
  by (auto simp: find_rational_rounded_def then_do_Inr_iff)






text \<open>Any left inverse of the normal matrix gives the coefficients the source computes.\<close>

lemma solve_coefficients_target:
  "solve_coefficients xi fxi A B = coefficients_for_target fxi xi fxi A B"
  by (simp add: solve_coefficients_def coefficients_for_target_def)

lemma solve_coefficients_returns:
  fixes xi fxi :: "('a::field) list"
  assumes len: "length fxi = length xi" and N: "0 \<le> A + B + 1"
    and R: "\<forall>a<nat (A + B + 1). \<forall>b<nat (A + B + 1).
              (\<Sum>l<nat (A + B + 1). R a l * normal_matrix xi fxi A B ! l ! b)
                = (if a = b then 1 else 0)"
  shows "\<exists>c. solve_coefficients xi fxi A B = Inr c
           \<and> (\<forall>a<nat (A + B + 1).
                 c ! a = (\<Sum>l<nat (A + B + 1). R a l * source_vector xi fxi A B ! l))"
proof -
  let ?N = "nat (A + B + 1)"
  let ?G = "\<lambda>l b. normal_matrix xi fxi A B ! l ! b" and ?d = "\<lambda>b. source_vector xi fxi A B ! b"
  from find_rational_returns [OF len N R]
  obtain c where c: "solve_coefficients xi fxi A B = Inr c"
    by (auto simp: find_rational_Inr_iff)
  have "c ! a = (\<Sum>l<?N. R a l * ?d l)" if a: "a < ?N" for a
  proof -
    have "c ! a = (\<Sum>b<?N. (if a = b then 1 else 0) * c ! b)"
      using a by (simp add: sum_unit_left)
    also have "\<dots> = (\<Sum>b<?N. (\<Sum>l<?N. R a l * ?G l b) * c ! b)"
      using R a by (intro sum.cong refl) simp
    also have "\<dots> = (\<Sum>l<?N. R a l * (\<Sum>b<?N. ?G l b * c ! b))"
      by (rule matvec_assoc)
    also have "\<dots> = (\<Sum>l<?N. R a l * ?d l)"
      by (intro sum.cong refl) (simp add: solve_normal_equations [OF c])
    finally show ?thesis .
  qed
  with c show ?thesis by blast
qed

subsection \<open>The body in a session\<close>





text \<open>A draw from numpy's global generator is not of this kind: its result is read from
  the session, and the session changes.\<close>

lemma np_random_uniform_stateful:
  "fst (np_random_uniform s) = Inr (rng_stream s (rng_pos s))"
  "snd (np_random_uniform s) \<noteq> s"
proof -
  show "fst (np_random_uniform s) = Inr (rng_stream s (rng_pos s))"
    by (simp add: np_random_uniform_def)
  have "rng_pos (snd (np_random_uniform s)) = rng_pos s + 1"
    by (simp add: np_random_uniform_def)
  then show "snd (np_random_uniform s) \<noteq> s" by auto
qed

section \<open>The claims\<close>

text \<open>
  Claim C1. The claim fixes the leading denominator coefficient at 1 and takes
  \<open>y\<^sub>i x\<^sub>i\<^sup>B\<close> as the target. The code fixes the constant term: the loop gives the
  denominator columns the powers \<open>x, \<dots>, x\<^sup>B\<close>, the target is \<open>y\<^sub>i\<close>, and 1.0 is appended
  as the last entry of a \<^verbatim>\<open>poly1d\<close>, whose coefficients run from the highest degree
  to the constant. What holds for degrees that are not negative: the call returns
  the two polynomials built from a vector \<open>c\<close> of \<open>A + B + 1\<close> coefficients, the denominator
  being, from the lowest degree up, \<open>1, c\<^bsub>A+1\<^esub>, \<dots>, c\<^bsub>A+B\<^esub>\<close>, and \<open>c\<close> solves the normal equations
  \<open>\<Phi>\<^sup>T \<Phi> c = \<Phi>\<^sup>T y\<close> whose target is \<open>y\<close>.
\<close>

theorem denominator_constant_normalised:
  fixes xi fxi :: "('a::field) list"
  assumes ret: "find_rational xi fxi A B = Inr (num, den)" and A: "0 \<le> A" and B: "0 \<le> B"
  shows "\<exists>c. length c = nat (A + B + 1)
       \<and> num = poly1d (rev (take (nat A + 1) c))
       \<and> den = poly1d (rev (drop (nat A + 1) c) @ [1])
       \<and> (\<forall>a<nat (A + B + 1).
            (\<Sum>b<nat (A + B + 1).
               (\<Sum>i<length xi. phi_val xi fxi A i a * phi_val xi fxi A i b) * c ! b)
            = (\<Sum>i<length xi. phi_val xi fxi A i a * fxi ! i))"
proof -
  let ?N = "nat (A + B + 1)"
  from find_rational_polynomials [OF ret A B]
  obtain c where c: "solve_coefficients xi fxi A B = Inr c" and lc: "length c = ?N"
    and num: "num = poly1d (rev (take (nat A + 1) c))"
    and den: "den = poly1d (rev (drop (nat A + 1) c) @ [1])"
    by blast
  have "(\<Sum>b<?N. (\<Sum>i<length xi. phi_val xi fxi A i a * phi_val xi fxi A i b) * c ! b)
      = (\<Sum>i<length xi. phi_val xi fxi A i a * fxi ! i)" if a: "a < ?N" for a
  proof -
    have "(\<Sum>b<?N. (\<Sum>i<length xi. phi_val xi fxi A i a * phi_val xi fxi A i b) * c ! b)
        = (\<Sum>b<?N. normal_matrix xi fxi A B ! a ! b * c ! b)"
      using a by (intro sum.cong refl) (simp add: normal_matrix_nth)
    also have "\<dots> = source_vector xi fxi A B ! a"
      by (rule solve_normal_equations [OF c a])
    also have "\<dots> = (\<Sum>i<length xi. phi_val xi fxi A i a * fxi ! i)"
      using a by (simp add: source_vector_nth mult.commute)
    finally show ?thesis .
  qed
  with lc num den show ?thesis by blast
qed

theorem denominator_constant_normalised_witness:
  "find_rational [0, 1 :: rat] [1/2, 1/3] 0 1 = Inr ([1/2], [1/2, 1])
   \<and> (0 :: int) \<le> 0 \<and> (0 :: int) \<le> 1
   \<and> (\<exists>c. length c = nat (0 + 1 + 1)
         \<and> [1/2 :: rat] = poly1d (rev (take (nat 0 + 1) c))
         \<and> [1/2, 1 :: rat] = poly1d (rev (drop (nat 0 + 1) c) @ [1]))"
proof -
  have h: "find_rational [0, 1 :: rat] [1/2, 1/3] 0 1 = Inr ([1/2], [1/2, 1])"
    by code_simp
  have h1: "(0 :: int) \<le> 0" and h2: "(0 :: int) \<le> 1" by simp_all
  from denominator_constant_normalised [OF h h1 h2]
  obtain c :: "rat list" where "length c = nat (0 + 1 + 1)"
    "[1/2 :: rat] = poly1d (rev (take (nat 0 + 1) c))"
    "[1/2, 1 :: rat] = poly1d (rev (drop (nat 0 + 1) c) @ [1])"
    by blast
  with h h1 h2 show ?thesis by blast
qed

text \<open>
  Claim C1, as stated, fails on the table (0, 1/2), (1, 1/3) with \<open>A = 0\<close>, \<open>B = 1\<close>: the
  denominator returned is \<open>x/2 + 1\<close>, whose leading coefficient is 1/2. The coefficients are
  (1/2, 1/2), and the source vector is \<open>\<Phi>\<^sup>T y\<close> = (5/6, -1/9), not the product (1/3, -1/9) of
  \<open>\<Phi>\<^sup>T\<close> with \<open>y\<^sub>i x\<^sub>i\<^sup>B\<close>.
\<close>

theorem leading_coefficient_counterexample:
  "find_rational [0, 1 :: rat] [1/2, 1/3] 0 1 = Inr ([1/2], [1/2, 1])
   \<and> hd [1/2, 1 :: rat] \<noteq> 1
   \<and> solve_coefficients [0, 1 :: rat] [1/2, 1/3] 0 1 = Inr [1/2, 1/2]
   \<and> then_do (design_matrix [0, 1 :: rat] [1/2, 1/3] 0 1) (dot_vm [1/2, 1/3]) = Inr [5/6, -1/9]
   \<and> then_do (design_matrix [0, 1 :: rat] [1/2, 1/3] 0 1) (dot_vm [1/2 * 0 ^ 1, 1/3 * 1 ^ 1])
        = Inr [1/3, -1/9]"
  by code_simp

text \<open>
  Claim C2. The normalisation the code applies is that of the constant term, and a table on
  a rational function can still give a singular system. What holds: let the table lie on
  \<open>N(x)/D(x)\<close> with \<open>N\<close> of \<open>A + 1\<close> coefficients \<open>cN\<close> and
  \<open>D(x) = 1 + cD\<^sub>0 x + \<dots> + cD\<^bsub>B-1\<^esub> x\<^sup>B\<close> (both lists from the lowest degree up), \<open>D\<close> not zero
  at any \<open>x\<^sub>i\<close>, and let \<open>\<Phi>\<^sup>T \<Phi>\<close> have an inverse. Then the call returns exactly these two
  polynomials, and evaluating them at the \<open>x\<^sub>i\<close> gives the \<open>y\<^sub>i\<close>.
\<close>

theorem recovers_rational_function:
  fixes xi fxi :: "('a::field) list"
  assumes len: "length fxi = length xi" and A: "0 \<le> A" and B: "0 \<le> B"
    and lN: "length cN = nat A + 1" and lD: "length cD = nat B"
    and on: "\<forall>i<length xi. polyval (rev cD @ [1]) (xi ! i) \<noteq> 0
               \<and> fxi ! i = polyval (rev cN) (xi ! i) / polyval (rev cD @ [1]) (xi ! i)"
    and reg: "\<forall>a<nat (A + B + 1). \<forall>b<nat (A + B + 1).
              (\<Sum>l<nat (A + B + 1). R a l * normal_matrix xi fxi A B ! l ! b)
                = (if a = b then 1 else 0)"
  shows "find_rational xi fxi A B = Inr (poly1d (rev cN), poly1d (rev cD @ [1]))
       \<and> evaluate (poly1d (rev cN), poly1d (rev cD @ [1])) xi = Inr (map Finite fxi)"
proof -
  have N: "0 \<le> A + B + 1" using A B by simp
  from find_rational_returns [OF len N reg]
  obtain num den where ret: "find_rational xi fxi A B = Inr (num, den)"
    by blast
  from recovers_when_returned [OF ret A B lN lD on]
  have n: "num = poly1d (rev cN)" and d: "den = poly1d (rev cD @ [1])"
    and e: "evaluate (num, den) xi = Inr (map Finite fxi)"
    by blast+
  from ret e show ?thesis unfolding n d by (rule conjI)
qed

theorem recovers_rational_function_witness:
  "length [1/2, 1/3 :: rat] = length [0, 1 :: rat] \<and> (0 :: int) \<le> 0 \<and> (0 :: int) \<le> 1
   \<and> length [1/2 :: rat] = nat 0 + 1 \<and> length [1/2 :: rat] = nat 1
   \<and> find_rational [0, 1 :: rat] [1/2, 1/3] 0 1
       = Inr (poly1d (rev [1/2]), poly1d (rev [1/2] @ [1]))
   \<and> evaluate (poly1d (rev [1/2]), poly1d (rev [1/2 :: rat] @ [1])) [0, 1]
       = Inr (map Finite [1/2, 1/3])"
proof -
  have len: "length [1/2, 1/3 :: rat] = length [0, 1 :: rat]" by simp
  have h1: "(0 :: int) \<le> 0" and h2: "(0 :: int) \<le> 1" by simp_all
  have lN: "length [1/2 :: rat] = nat 0 + 1" and lD: "length [1/2 :: rat] = nat 1"
    by simp_all
  have on: "\<forall>i<length [0, 1 :: rat]. polyval (rev [1/2] @ [1]) ([0, 1 :: rat] ! i) \<noteq> 0
      \<and> [1/2, 1/3 :: rat] ! i
          = polyval (rev [1/2]) ([0, 1] ! i) / polyval (rev [1/2] @ [1]) ([0, 1] ! i)"
    by (simp add: polyval_def less_Suc_eq)
  have nm: "normal_matrix [0, 1 :: rat] [1/2, 1/3] 0 1 = [[2, -(1/3)], [-(1/3), 1/9]]"
    by code_simp
  have reg: "\<forall>a<nat (0 + 1 + 1). \<forall>b<nat (0 + 1 + 1).
     (\<Sum>l<nat (0 + 1 + 1). [[1, 3], [3, 18 :: rat]] ! a ! l
         * normal_matrix [0, 1 :: rat] [1/2, 1/3] 0 1 ! l ! b) = (if a = b then 1 else 0)"
    unfolding nm by (simp add: numeral_2_eq_2 less_Suc_eq lessThan_Suc all_conj_distrib)
  from recovers_rational_function [OF len h1 h2 lN lD on reg] len h1 h2 lN lD
  show ?thesis by blast
qed

text \<open>
  Claim C2, as stated, fails twice. The table (0, 1), (3, 1/2) lies on \<open>3/(x + 3)\<close>, whose
  denominator has the leading coefficient 1; with \<open>A = 0\<close>, \<open>B = 1\<close> the call returns
  the numerator 1 and the denominator \<open>x/3 + 1\<close>, not the coefficients 3 and (1, 3). The
  table (1, 1), (2, 1/2) lies on \<open>1/x\<close>, whose denominator has the leading coefficient 1
  too, and the call raises LinAlgError.
\<close>

theorem recovery_counterexample:
  "polyval [3] 0 / polyval [1, 3] 0 = (1 :: rat)
   \<and> polyval [3] 3 / polyval [1, 3] 3 = (1/2 :: rat)
   \<and> find_rational [0, 3 :: rat] [1, 1/2] 0 1 = Inr ([1], [1/3, 1])
   \<and> polyval [1] 1 / polyval [1, 0] 1 = (1 :: rat)
   \<and> polyval [1] 2 / polyval [1, 0] 2 = (1/2 :: rat)
   \<and> find_rational [1, 2 :: rat] [1, 1/2] 0 1 = Inl LinAlgError"
  by code_simp




text \<open>
  Claim C4. The quotient \<^verbatim>\<open>num(xx)/den(xx)\<close> is a quotient of numpy floats and raises
  nothing. What holds instead: evaluation always returns one value for each query point, and
  at a point where the denominator is zero that value is not finite: NaN when the numerator is
  zero there too, an infinity otherwise.
\<close>

theorem evaluate_never_raises:
  "\<exists>ys. evaluate fn xx = Inr ys \<and> length ys = length xx \<and>
     (\<forall>k < length xx. polyval (snd fn) (xx ! k) = 0 \<longrightarrow>
        ys ! k = (if polyval (fst fn) (xx ! k) = 0 then NaN else Infinite))"
  by (simp add: evaluate_def np_divide_def)

theorem evaluate_never_raises_witness:
  "\<exists>ys. evaluate ([1 :: rat], [1, -2]) [2, 3] = Inr ys \<and> length ys = length [2, 3 :: rat] \<and>
     polyval (snd ([1 :: rat], [1, -2 :: rat])) ([2, 3] ! 0) = 0 \<and> ys ! 0 = Infinite"
proof -
  have z: "polyval (snd ([1 :: rat], [1, -2 :: rat])) ([2, 3] ! 0) = 0"
    by (simp add: polyval_def)
  have n: "polyval (fst ([1 :: rat], [1, -2 :: rat])) ([2, 3] ! 0) \<noteq> 0"
    by (simp add: polyval_def)
  from evaluate_never_raises [of "([1 :: rat], [1, -2])" "[2, 3]"]
  obtain ys where ys: "evaluate ([1 :: rat], [1, -2]) [2, 3] = Inr ys"
    "length ys = length [2, 3 :: rat]"
    "\<forall>k < length [2, 3 :: rat]. polyval (snd ([1 :: rat], [1, -2 :: rat])) ([2, 3] ! k) = 0 \<longrightarrow>
        ys ! k = (if polyval (fst ([1 :: rat], [1, -2 :: rat])) ([2, 3] ! k) = 0 then NaN else Infinite)"
    by blast
  from ys(3) z n have "ys ! 0 = Infinite" by simp
  with ys z show ?thesis by blast
qed

text \<open>
  Claim C4, as stated, fails on the function fitted to the table (2, 3), (4, 0) with
  \<open>A = 0\<close>, \<open>B = 1\<close>: its denominator \<open>-x/2 + 1\<close> is zero at 2, and evaluation there
  returns NaN, not an error.
\<close>

theorem zero_denominator_counterexample:
  "find_rational [2, 4 :: rat] [3, 0] 0 1 = Inr ([0], [-(1/2), 1])
   \<and> polyval [-(1/2), 1 :: rat] 2 = 0
   \<and> evaluate ([0], [-(1/2), 1 :: rat]) [2] = Inr [NaN]"
  by code_simp

text \<open>
  Claim C5. \<^verbatim>\<open>find_rational\<close> has no check of its degrees. A call with a negative
  degree returns a pair of polynomials when \<open>A + B + 1\<close> is not negative and the system is
  regular. What holds instead: when \<open>A + B + 1 < 0\<close> the allocation of \<open>phi\<close> raises
  ValueError.
\<close>

theorem negative_shape_raises:
  assumes "A + B + 1 < 0"
  shows "find_rational xi fxi A B = Inl ValueError"
  using assms
  by (simp add: find_rational_def solve_coefficients_def design_matrix_def Let_def
      np_zeros_negative then_do_def)

theorem negative_shape_raises_witness:
  "(-1 :: int) + (-1) + 1 < 0 \<and> find_rational [1 :: rat] [1] (-1) (-1) = Inl ValueError"
proof -
  have h: "(-1 :: int) + (-1) + 1 < 0" by simp
  show ?thesis using h negative_shape_raises [OF h, of "[1 :: rat]" "[1]"] by simp
qed

text \<open>
  Claim C5, as stated, fails at \<open>A = -1\<close>, \<open>B = 1\<close> on the one-point table (1, 1):
  the loop fills the single column with \<open>-y x\<close>, the system is regular, and the call
  returns the numerator 0 and the denominator \<open>-x + 1\<close>.
\<close>

theorem negative_degree_counterexample:
  "find_rational [1 :: rat] [1] (-1) 1 = Inr ([0], [-1, 1])"
  by code_simp

text \<open>
  Claim C6. The first half holds as stated: for a table of \<open>n\<close> pairs and degrees that are
  not negative, the loop leaves a matrix \<open>\<Phi>\<close> of shape \<open>(n, A + B + 1)\<close> whose entry
  \<open>(i, a)\<close> is \<open>x\<^sub>i\<^sup>a\<close> for \<open>a \<le> A\<close> and \<open>-y\<^sub>i x\<^sub>i\<^bsup>a-A\<^esup>\<close> for \<open>A < a \<le> A + B\<close>. The second half
  holds with the target \<open>y\<^sub>i\<close>, not the target \<open>y\<^sub>i x\<^sub>i\<^sup>B\<close> of the specification: whenever
  \<open>R\<close> is an inverse of \<open>\<Phi>\<^sup>T \<Phi>\<close>, the function computes a coefficient vector, and that vector
  is \<open>R \<Phi>\<^sup>T y\<close>; \<open>R\<close> is then an inverse on both sides.
\<close>

theorem design_matrix_normal_equations:
  fixes xi fxi :: "('a::field) list"
  assumes len: "length fxi = length xi" and A: "0 \<le> A" and B: "0 \<le> B"
  shows "\<exists>phi. design_matrix xi fxi A B = Inr ((length xi, nat (A + B + 1)), phi)
     \<and> length phi = length xi
     \<and> (\<forall>i<length xi. length (phi ! i) = nat (A + B + 1)
          \<and> (\<forall>a. int a \<le> A \<longrightarrow> phi ! i ! a = xi ! i ^ a)
          \<and> (\<forall>a. A < int a \<and> int a \<le> A + B \<longrightarrow>
                 phi ! i ! a = - (fxi ! i) * xi ! i ^ nat (int a - A)))
     \<and> (\<forall>R. (\<forall>a<nat (A + B + 1). \<forall>b<nat (A + B + 1).
                (\<Sum>l<nat (A + B + 1). R a l * (\<Sum>i<length xi. phi ! i ! l * phi ! i ! b))
                  = (if a = b then 1 else 0))
          \<longrightarrow> (\<exists>c. solve_coefficients xi fxi A B = Inr c
                 \<and> c = map (\<lambda>a. \<Sum>b<nat (A + B + 1).
                                  R a b * (\<Sum>i<length xi. phi ! i ! b * fxi ! i))
                           [0..<nat (A + B + 1)]
                 \<and> (\<forall>a<nat (A + B + 1). \<forall>b<nat (A + B + 1).
                       (\<Sum>l<nat (A + B + 1). (\<Sum>i<length xi. phi ! i ! a * phi ! i ! l) * R l b)
                         = (if a = b then 1 else 0))))"
proof -
  let ?n = "length xi" and ?N = "nat (A + B + 1)" and ?phi = "phi_table xi fxi A B"
  let ?G = "\<lambda>l b. \<Sum>i<?n. ?phi ! i ! l * ?phi ! i ! b"
  have N: "0 \<le> A + B + 1" using A B by simp
  have dm: "design_matrix xi fxi A B = Inr ((?n, ?N), ?phi)"
    by (rule design_matrix_table [OF len N])
  have l1: "length ?phi = ?n" by (simp add: phi_table_def)
  have rows: "length (?phi ! i) = ?N
          \<and> (\<forall>a. int a \<le> A \<longrightarrow> ?phi ! i ! a = xi ! i ^ a)
          \<and> (\<forall>a. A < int a \<and> int a \<le> A + B \<longrightarrow>
                 ?phi ! i ! a = - (fxi ! i) * xi ! i ^ nat (int a - A))" if i: "i < ?n" for i
  proof (intro conjI allI impI)
    show "length (?phi ! i) = ?N" using i by (simp add: phi_table_def)
  next
    fix a assume a: "int a \<le> A"
    then have "a < ?N" using B by arith
    then show "?phi ! i ! a = xi ! i ^ a"
      using i a by (simp add: phi_table_nth phi_val_def)
  next
    fix a assume a: "A < int a \<and> int a \<le> A + B"
    then have "a < ?N" by arith
    then show "?phi ! i ! a = - (fxi ! i) * xi ! i ^ nat (int a - A)"
      using i a by (simp add: phi_table_nth phi_val_def)
  qed
  have G: "?G l b = normal_matrix xi fxi A B ! l ! b" if "l < ?N" "b < ?N" for l b
    unfolding normal_matrix_nth [OF that]
    by (intro sum.cong refl) (use that in \<open>simp add: phi_table_nth\<close>)
  have d: "(\<Sum>i<?n. ?phi ! i ! b * fxi ! i) = source_vector xi fxi A B ! b" if "b < ?N" for b
    unfolding source_vector_nth [OF that]
    by (intro sum.cong refl) (use that in \<open>simp add: phi_table_nth mult.commute\<close>)
  have sol: "\<exists>c. solve_coefficients xi fxi A B = Inr c
              \<and> c = map (\<lambda>a. \<Sum>b<?N. R a b * (\<Sum>i<?n. ?phi ! i ! b * fxi ! i)) [0..<?N]
              \<and> (\<forall>a<?N. \<forall>b<?N. (\<Sum>l<?N. ?G a l * R l b) = (if a = b then 1 else 0))"
    if RG: "\<forall>a<?N. \<forall>b<?N. (\<Sum>l<?N. R a l * ?G l b) = (if a = b then 1 else 0)"
    for R :: "nat \<Rightarrow> nat \<Rightarrow> 'a"
  proof -
    have RG': "(\<Sum>l<?N. R a l * normal_matrix xi fxi A B ! l ! b) = (if a = b then 1 else 0)"
      if "a < ?N" "b < ?N" for a b
    proof -
      have "(\<Sum>l<?N. R a l * normal_matrix xi fxi A B ! l ! b) = (\<Sum>l<?N. R a l * ?G l b)"
        by (intro sum.cong refl) (use that in \<open>simp add: G\<close>)
      then show ?thesis using RG that by simp
    qed
    then have "\<forall>a<?N. \<forall>b<?N.
        (\<Sum>l<?N. R a l * normal_matrix xi fxi A B ! l ! b) = (if a = b then 1 else 0)"
      by simp
    from solve_coefficients_returns [OF len N this]
    obtain c where c: "solve_coefficients xi fxi A B = Inr c"
      and cR: "\<And>a. a < ?N \<Longrightarrow> c ! a = (\<Sum>l<?N. R a l * source_vector xi fxi A B ! l)"
      by blast
    from solve_coefficients_Inr [OF c] have lc: "length c = ?N" by blast
    have GR: "(\<Sum>l<?N. ?G a l * R l b) = (if a = b then 1 else 0)" if "a < ?N" "b < ?N" for a b
      by (rule left_inverse_right [where X = R and Y = ?G]) (use RG that in simp_all)
    have "c = map (\<lambda>a. \<Sum>b<?N. R a b * (\<Sum>i<?n. ?phi ! i ! b * fxi ! i)) [0..<?N]"
    proof (rule nth_equalityI)
      show "length c = length (map (\<lambda>a. \<Sum>b<?N. R a b * (\<Sum>i<?n. ?phi ! i ! b * fxi ! i)) [0..<?N])"
        using lc by simp
    next
      fix a assume "a < length c"
      then have a: "a < ?N" using lc by simp
      have "(\<Sum>b<?N. R a b * (\<Sum>i<?n. ?phi ! i ! b * fxi ! i))
          = (\<Sum>b<?N. R a b * source_vector xi fxi A B ! b)"
        by (intro sum.cong refl) (simp add: d)
      then show "c ! a = map (\<lambda>a. \<Sum>b<?N. R a b * (\<Sum>i<?n. ?phi ! i ! b * fxi ! i)) [0..<?N] ! a"
        using a cR [OF a] by simp
    qed
    with c GR show ?thesis by blast
  qed
  show ?thesis
    by (intro exI [of _ ?phi] conjI allI impI dm l1 sol) (use rows in simp_all)
qed

theorem design_matrix_normal_equations_witness:
  "length [1/2, 1/3 :: rat] = length [0, 1 :: rat] \<and> (0 :: int) \<le> 0 \<and> (0 :: int) \<le> 1
   \<and> design_matrix [0, 1 :: rat] [1/2, 1/3] 0 1 = Inr ((2, 2), [[1, 0], [1, -(1/3)]])
   \<and> solve_coefficients [0, 1 :: rat] [1/2, 1/3] 0 1 = Inr [1/2, 1/2]"
proof -
  have len: "length [1/2, 1/3 :: rat] = length [0, 1 :: rat]" by simp
  have h1: "(0 :: int) \<le> 0" and h2: "(0 :: int) \<le> 1" by simp_all
  have dmv: "design_matrix [0, 1 :: rat] [1/2, 1/3] 0 1 = Inr ((2, 2), [[1, 0], [1, -(1/3)]])"
    by code_simp
  from design_matrix_normal_equations [OF len h1 h2]
  obtain phi where dm: "design_matrix [0, 1 :: rat] [1/2, 1/3] 0 1
        = Inr ((length [0, 1 :: rat], nat (0 + 1 + 1)), phi)"
    and inv: "\<forall>R. (\<forall>a<nat (0 + 1 + 1). \<forall>b<nat (0 + 1 + 1).
                (\<Sum>l<nat (0 + 1 + 1). R a l * (\<Sum>i<length [0, 1 :: rat]. phi ! i ! l * phi ! i ! b))
                  = (if a = b then 1 else 0))
          \<longrightarrow> (\<exists>c. solve_coefficients [0, 1 :: rat] [1/2, 1/3] 0 1 = Inr c
                 \<and> c = map (\<lambda>a. \<Sum>b<nat (0 + 1 + 1).
                                  R a b * (\<Sum>i<length [0, 1 :: rat]. phi ! i ! b * [1/2, 1/3] ! i))
                           [0..<nat (0 + 1 + 1)]
                 \<and> (\<forall>a<nat (0 + 1 + 1). \<forall>b<nat (0 + 1 + 1).
                       (\<Sum>l<nat (0 + 1 + 1).
                          (\<Sum>i<length [0, 1 :: rat]. phi ! i ! a * phi ! i ! l) * R l b)
                         = (if a = b then 1 else 0)))"
    by blast
  from dm dmv have phi: "phi = [[1, 0], [1, -(1/3)]]" by simp
  have reg: "\<forall>a<nat (0 + 1 + 1). \<forall>b<nat (0 + 1 + 1).
      (\<Sum>l<nat (0 + 1 + 1). [[1, 3], [3, 18 :: rat]] ! a ! l
          * (\<Sum>i<length [0, 1 :: rat]. phi ! i ! l * phi ! i ! b))
        = (if a = b then 1 else 0)"
    unfolding phi by (simp add: numeral_2_eq_2 less_Suc_eq lessThan_Suc all_conj_distrib)
  from spec [OF inv, of "\<lambda>a l. [[1, 3], [3, 18 :: rat]] ! a ! l"] reg
  obtain c where c: "solve_coefficients [0, 1 :: rat] [1/2, 1/3] 0 1 = Inr c"
    and cv: "c = map (\<lambda>a. \<Sum>b<nat (0 + 1 + 1). [[1, 3], [3, 18 :: rat]] ! a ! b
                        * (\<Sum>i<length [0, 1 :: rat]. phi ! i ! b * [1/2, 1/3] ! i))
                  [0..<nat (0 + 1 + 1)]"
    by blast
  have "c = [1/2, 1/2]"
    unfolding cv phi by (simp add: numeral_2_eq_2 lessThan_Suc)
  with c have "solve_coefficients [0, 1 :: rat] [1/2, 1/3] 0 1 = Inr [1/2, 1/2]" by simp
  with len h1 h2 dmv show ?thesis by blast
qed

text \<open>
  Claim C6, read with the target of the specification, fails on the table (0, 1/2), (1, 1/3)
  with \<open>A = 0\<close>, \<open>B = 1\<close>: the target \<open>y\<^sub>i x\<^sub>i\<^sup>B\<close> is (0, 1/3) and gives the coefficients
  (0, -1), while the source computes (1/2, 1/2).
\<close>

theorem target_vector_counterexample:
  "claimed_target [0, 1 :: rat] [1/2, 1/3] 1 = [0, 1/3]
   \<and> coefficients_for_target (claimed_target [0, 1] [1/2, 1/3] 1) [0, 1 :: rat] [1/2, 1/3] 0 1
       = Inr [0, -1]
   \<and> solve_coefficients [0, 1 :: rat] [1/2, 1/3] 0 1 = Inr [1/2, 1/2]"
  by code_simp


text \<open>
  Claim C8. With exactly \<open>A + B + 1\<close> points and a matrix \<open>\<Phi>\<^sup>T \<Phi>\<close> that has an inverse, the
  call returns, and the polynomials returned satisfy \<open>y\<^sub>i D(x\<^sub>i) = N(x\<^sub>i)\<close> at every point of
  the table; so the fitted function has the value \<open>y\<^sub>i\<close> at each \<open>x\<^sub>i\<close> where its denominator
  is not zero. Where the denominator is zero the claim fails, see below.
\<close>

theorem exactly_determined_interpolates:
  fixes xi fxi :: "('a::field) list"
  assumes len: "length fxi = length xi" and A: "0 \<le> A" and B: "0 \<le> B"
    and sq: "int (length xi) = A + B + 1"
    and reg: "\<forall>a<nat (A + B + 1). \<forall>b<nat (A + B + 1).
              (\<Sum>l<nat (A + B + 1). R a l * normal_matrix xi fxi A B ! l ! b)
                = (if a = b then 1 else 0)"
  shows "\<exists>num den. find_rational xi fxi A B = Inr (num, den)
       \<and> (\<forall>i<length xi. fxi ! i * polyval den (xi ! i) = polyval num (xi ! i)
            \<and> (polyval den (xi ! i) \<noteq> 0 \<longrightarrow>
                 evaluate (num, den) [xi ! i] = Inr [Finite (fxi ! i)]))"
proof -
  have N: "0 \<le> A + B + 1" using A B by simp
  from find_rational_returns [OF len N reg]
  obtain num den where ret: "find_rational xi fxi A B = Inr (num, den)"
    by blast
  have "\<forall>i<length xi. fxi ! i * polyval den (xi ! i) = polyval num (xi ! i)
            \<and> (polyval den (xi ! i) \<noteq> 0 \<longrightarrow>
                 evaluate (num, den) [xi ! i] = Inr [Finite (fxi ! i)])"
    using interpolates_when_returned [OF ret A B sq] by blast
  with ret show ?thesis by blast
qed

theorem exactly_determined_interpolates_witness:
  "length [1, 1/2 :: rat] = length [0, 3 :: rat] \<and> (0 :: int) \<le> 0 \<and> (0 :: int) \<le> 1
   \<and> int (length [0, 3 :: rat]) = 0 + 1 + 1
   \<and> find_rational [0, 3 :: rat] [1, 1/2] 0 1 = Inr ([1], [1/3, 1])
   \<and> [1, 1/2 :: rat] ! 1 * polyval [1/3, 1] ([0, 3] ! 1) = polyval [1] ([0, 3] ! 1)
   \<and> polyval [1/3, 1 :: rat] ([0, 3] ! 1) \<noteq> 0
   \<and> evaluate ([1], [1/3, 1 :: rat]) [[0, 3] ! 1] = Inr [Finite ([1, 1/2] ! 1)]"
proof -
  have len: "length [1, 1/2 :: rat] = length [0, 3 :: rat]" by simp
  have h1: "(0 :: int) \<le> 0" and h2: "(0 :: int) \<le> 1"
    and h3: "int (length [0, 3 :: rat]) = 0 + 1 + 1"
    by simp_all
  have nm: "normal_matrix [0, 3 :: rat] [1, 1/2] 0 1 = [[2, -(3/2)], [-(3/2), 9/4]]"
    by code_simp
  have reg: "\<forall>a<nat (0 + 1 + 1). \<forall>b<nat (0 + 1 + 1).
     (\<Sum>l<nat (0 + 1 + 1). [[1, 2/3], [2/3, 8/9 :: rat]] ! a ! l
         * normal_matrix [0, 3 :: rat] [1, 1/2] 0 1 ! l ! b) = (if a = b then 1 else 0)"
    unfolding nm by (simp add: numeral_2_eq_2 less_Suc_eq lessThan_Suc all_conj_distrib)
  have v: "find_rational [0, 3 :: rat] [1, 1/2] 0 1 = Inr ([1], [1/3, 1])"
    by code_simp
  have nz: "polyval [1/3, 1 :: rat] ([0, 3] ! 1) \<noteq> 0"
    by (simp add: polyval_def)
  from exactly_determined_interpolates [OF len h1 h2 h3 reg]
  obtain num den where ret: "find_rational [0, 3 :: rat] [1, 1/2] 0 1 = Inr (num, den)"
    and all: "\<forall>i<length [0, 3 :: rat].
        [1, 1/2 :: rat] ! i * polyval den ([0, 3] ! i) = polyval num ([0, 3] ! i)
        \<and> (polyval den ([0, 3] ! i) \<noteq> 0 \<longrightarrow>
             evaluate (num, den) [[0, 3] ! i] = Inr [Finite ([1, 1/2] ! i)])"
    by blast
  from ret v have nd: "num = [1]" "den = [1/3, 1]" by auto
  have "(1 :: nat) < length [0, 3 :: rat]" by simp
  with all have "[1, 1/2 :: rat] ! 1 * polyval den ([0, 3] ! 1) = polyval num ([0, 3] ! 1)
        \<and> (polyval den ([0, 3] ! 1) \<noteq> 0 \<longrightarrow>
             evaluate (num, den) [[0, 3] ! 1] = Inr [Finite ([1, 1/2] ! 1)])"
    by blast
  with nd nz have "[1, 1/2 :: rat] ! 1 * polyval [1/3, 1] ([0, 3] ! 1) = polyval [1] ([0, 3] ! 1)"
    and "evaluate ([1], [1/3, 1 :: rat]) [[0, 3] ! 1] = Inr [Finite ([1, 1/2] ! 1)]"
    by simp_all
  with len h1 h2 h3 v nz show ?thesis by blast
qed

text \<open>
  Claim C8, as stated, fails on the table (1, 1), (2, 0) with \<open>A = 0\<close>, \<open>B = 1\<close>: two points,
  a regular system, and the fit returns the numerator 0 and the denominator \<open>-x + 1\<close>, which
  is zero at the first point; the fitted function is NaN there, not 1.
\<close>

theorem interpolation_counterexample:
  "find_rational [1, 2 :: rat] [1, 0] 0 1 = Inr ([0], [-1, 1])
   \<and> evaluate ([0], [-1, 1 :: rat]) [1, 2] = Inr [NaN, Finite 0]"
  by code_simp

text \<open>
  Claim C9. For the samples (0,1), (1,2), (2,5), (3,10) with \<open>A = 2\<close> and \<open>B = 0\<close> the fit
  returns the numerator \<open>x\<^sup>2 + 1\<close> (coefficients 1, 0, 1; the list reads the same in both
  orders) and the denominator \<open>[1]\<close>, and the fitted function has the value 17 at 4. In
  exact arithmetic the values are met exactly.
\<close>

theorem quadratic_scenario:
  "find_rational [0, 1, 2, 3 :: rat] [1, 2, 5, 10] 2 0 = Inr ([1, 0, 1], [1])
   \<and> evaluate ([1, 0, 1], [1 :: rat]) [4] = Inr [Finite 17]"
  by code_simp

text \<open>
  Claim C10. Whenever \<^verbatim>\<open>find_rational\<close> returns, the denominator it returns is not
  empty, its last coefficient (the constant term, since \<^verbatim>\<open>poly1d\<close> stores the highest
  degree first) is exactly 1, and so the denominator has the value 1 at 0. This holds for
  every sample table and all degrees.
\<close>

theorem find_rational_constant_term:
  assumes "find_rational xi fxi A B = Inr (num, den)"
  shows "den \<noteq> [] \<and> last den = 1 \<and> polyval den 0 = 1"
proof -
  from assms obtain c where den: "den = poly1d (rev (slice_from c (A + 1)) @ [1])"
    by (auto simp: find_rational_def then_do_Inr_iff)
  have d2: "den = dropWhile (\<lambda>c. c = 0) (rev (slice_from c (A + 1))) @ [1]"
    unfolding den by (rule poly1d_snoc_one)
  have "polyval den 0 = 1"
    unfolding d2 by (simp add: polyval_snoc)
  with d2 show ?thesis by simp
qed

theorem find_rational_constant_term_witness:
  "find_rational [0, 1 :: rat] [1/2, 1/3] 0 1 = Inr ([1/2], [1/2, 1])
   \<and> [1/2, 1 :: rat] \<noteq> [] \<and> last [1/2, 1 :: rat] = 1 \<and> polyval [1/2, 1 :: rat] 0 = 1"
proof -
  have h: "find_rational [0, 1 :: rat] [1/2, 1/3] 0 1 = Inr ([1/2], [1/2, 1])"
    by code_simp
  show ?thesis using h find_rational_constant_term [OF h] by simp
qed

end
